theory Spec2Isabelle
  imports Main "HOL-Library.Word"
begin

unbundle bit_operations_syntax

section \<open>YMODEM receiver: data model (ymodem.h)\<close>

type_synonym byte = "8 word"

text \<open>Control characters (enum YM_CC in ymodem.c).\<close>

abbreviation (input) SOH :: byte where "SOH \<equiv> 0x01"
abbreviation (input) STX :: byte where "STX \<equiv> 0x02"
abbreviation (input) EOT :: byte where "EOT \<equiv> 0x04"
abbreviation (input) ACK :: byte where "ACK \<equiv> 0x06"
abbreviation (input) NAK :: byte where "NAK \<equiv> 0x15"
abbreviation (input) CA :: byte where "CA \<equiv> 0x18"
abbreviation (input) CRC16 :: byte where "CRC16 \<equiv> 0x43"
abbreviation (input) ABORT1 :: byte where "ABORT1 \<equiv> 0x41"
abbreviation (input) ABORT2 :: byte where "ABORT2 \<equiv> 0x61"

text \<open>Size macros of ymodem.h.\<close>

abbreviation (input) YM_FILE_NAME_LENGTH :: nat where "YM_FILE_NAME_LENGTH \<equiv> 256"
abbreviation (input) YM_FILE_SIZE_LENGTH :: nat where "YM_FILE_SIZE_LENGTH \<equiv> 16"
abbreviation (input) YM_RESP_PAYLOAD_LEN :: nat where "YM_RESP_PAYLOAD_LEN \<equiv> 5"
abbreviation (input) YM_PACKET_SIZE :: "16 word" where "YM_PACKET_SIZE \<equiv> 128"
abbreviation (input) YM_PACKET_1K_SIZE :: "16 word" where "YM_PACKET_1K_SIZE \<equiv> 1024"
abbreviation (input) YM_PACKET_SEQNO_INDEX :: nat where "YM_PACKET_SEQNO_INDEX \<equiv> 1"
abbreviation (input) YM_PACKET_SEQNO_COMP_INDEX :: nat where "YM_PACKET_SEQNO_COMP_INDEX \<equiv> 2"
abbreviation (input) YM_PACKET_HEADER :: nat where "YM_PACKET_HEADER \<equiv> 3"
abbreviation (input) YM_PACKET_TRAILER :: nat where "YM_PACKET_TRAILER \<equiv> 2"
abbreviation (input) YM_PACKET_OVERHEAD :: nat where "YM_PACKET_OVERHEAD \<equiv> 5"
abbreviation (input) YM_PACKET_1K_OVRHD_SIZE :: nat where "YM_PACKET_1K_OVRHD_SIZE \<equiv> 1029"
abbreviation (input) YM_INSTANCE_INIT_MASK :: byte where "YM_INSTANCE_INIT_MASK \<equiv> 0x52"

datatype ymodem_err_e =
  YMODEM_OK | YMODEM_TX_PENDING | YMODEM_ABORTED | YMODEM_WRITE_ERR | YMODEM_SIZE_ERR
  | YMODEM_COMPLETE

datatype ymodem_file_cb_e =
  YMODEM_FILE_CB_NAME | YMODEM_FILE_CB_DATA | YMODEM_FILE_CB_END | YMODEM_FILE_CB_ABORTED

text \<open>Internal return values (ym_ret_t in ymodem.c).\<close>

datatype ym_ret_t =
  YM_OK | YM_ABORTED | YM_ABORT | YM_WRITE_ERR | YM_SIZE_ERR | YM_START_RX | YM_RX_ERROR
  | YM_RX_OK | YM_RX_COMPLETE | YM_SUCCESS

text \<open>
  The session struct \<open>ymodem_t\<close>. The four arrays are byte lists; their declared sizes
  are the invariant \<open>ymodem_wf\<close> below. \<open>packetsReceived\<close> is an \<open>int32_t\<close>, kept as
  a 32-bit word in two's complement (its increment wraps). \<open>serialWriteFxn\<close> is a function
  pointer, kept as its address, \<open>0\<close> being \<open>NULL\<close>.
\<close>

record ymodem_t =
  fileName :: "byte list"
  fileSizeStr :: "byte list"
  packetData :: "byte list"
  payloadTx :: "byte list"
  payloadLen :: byte
  initialized :: byte
  fileSize :: "32 word"
  prevC :: byte
  startOfPacket :: byte
  eotReceived :: byte
  packetBytes :: "16 word"
  packetSize :: "16 word"
  packetsReceived :: "32 word"
  nextStatus :: ymodem_err_e
  serialWriteFxn :: nat

definition ymodem_wf :: "ymodem_t \<Rightarrow> bool" where
  "ymodem_wf s =
     (length (fileName s) = YM_FILE_NAME_LENGTH \<and>
      length (fileSizeStr s) = YM_FILE_SIZE_LENGTH \<and>
      length (packetData s) = YM_PACKET_1K_OVRHD_SIZE \<and>
      length (payloadTx s) = YM_RESP_PAYLOAD_LEN)"

text \<open>
  What a call leaves outside the session. \<open>SerialWrite data len\<close> is one call of the
  configured serial write function; \<open>FileCallback e data len\<close> is one call of the
  application's \<open>ymodem_FileCallback\<close>. A pointer argument is recorded as the bytes from
  the pointer to the end of the array it points into, \<open>None\<close> for \<open>NULL\<close>.
\<close>

datatype effect =
  SerialWrite "byte list" byte
  | FileCallback ymodem_file_cb_e "byte list option" "32 word"

text \<open>
  The application's callback is a parameter of the model: it answers from the event, the
  data and the length it is handed, and does not touch the session.
\<close>

type_synonym file_cb = "ymodem_file_cb_e \<Rightarrow> byte list option \<Rightarrow> 32 word \<Rightarrow> ymodem_err_e"

text \<open>
  Ways a call can fail to return: a failed \<open>assert\<close>, or an array access outside the
  array's declared bounds (undefined behaviour in C).
\<close>

datatype ym_fault = AssertionFailed | OutOfBounds

definition bind_fault :: "ym_fault + 'a \<Rightarrow> ('a \<Rightarrow> ym_fault + 'b) \<Rightarrow> ym_fault + 'b" where
  "bind_fault m f = (case m of Inl e \<Rightarrow> Inl e | Inr x \<Rightarrow> f x)"

section \<open>Checksum engine\<close>

abbreviation (input) YM_CRC_POLY :: "16 word" where "YM_CRC_POLY \<equiv> 0x1021"

definition SWAP16 :: "16 word \<Rightarrow> 16 word" where
  "SWAP16 x = drop_bit 8 x OR push_bit 8 (x AND 0xff)"

definition crc_update :: "16 word \<Rightarrow> int \<Rightarrow> 16 word" where
  "crc_update crc_in incr =
     (let xor = drop_bit 15 crc_in;
          out = push_bit 1 crc_in;
          out = (if incr \<noteq> 0 then out + 1 else out);
          out = (if xor \<noteq> 0 then out XOR YM_CRC_POLY else out)
      in out)"

text \<open>The inner loop of \<open>crc16\<close>: \<open>for (i = 0x80; i; i >>= 1)\<close> over one byte.\<close>

function crc16_byte :: "16 word \<Rightarrow> byte \<Rightarrow> 16 word \<Rightarrow> 16 word" where
  "crc16_byte crc d i =
     (if i \<noteq> 0 then crc16_byte (crc_update crc (uint (ucast d AND i))) d (drop_bit 1 i)
      else crc)"
  by pat_completeness auto
termination
proof (relation "measure (\<lambda>(crc, d, i). unat i)")
  show "wf (measure (\<lambda>(crc :: 16 word, d :: byte, i :: 16 word). unat i))" by simp
next
  fix crc :: "16 word" and d :: byte and i :: "16 word"
  assume "i \<noteq> 0"
  then have "unat i \<noteq> 0" by (simp add: unat_eq_0)
  then have "unat i div 2 < unat i" by simp
  then show "((crc_update crc (uint (ucast d AND i)), d, drop_bit 1 i), (crc, d, i))
      \<in> measure (\<lambda>(crc, d, i). unat i)"
    by (simp add: drop_bit_eq_div unat_div)
qed

declare crc16_byte.simps [simp del]

text \<open>The outer loop over the \<open>size\<close> bytes at \<open>data\<close>.\<close>

fun crc16_data :: "16 word \<Rightarrow> byte list \<Rightarrow> 16 word" where
  "crc16_data crc [] = crc"
| "crc16_data crc (d # ds) = crc16_data (crc16_byte crc d 0x80) ds"

text \<open>The second loop: \<open>for (i = 0; i < 16; i++) crc = crc_update(crc, 0)\<close>.\<close>

function crc16_flush :: "16 word \<Rightarrow> 16 word \<Rightarrow> 16 word" where
  "crc16_flush crc i = (if i < 16 then crc16_flush (crc_update crc 0) (i + 1) else crc)"
  by pat_completeness auto
termination
  by (relation "measure (\<lambda>(crc, i). 16 - unat i)")
     (simp_all add: word_less_nat_alt unat_word_ariths)

declare crc16_flush.simps [simp del]

definition crc16 :: "byte list \<Rightarrow> 16 word" where
  "crc16 data = crc16_flush (crc16_data 0 data) 0"

section \<open>Decimal parser\<close>

definition ISVALIDDEC :: "byte \<Rightarrow> bool" where
  "ISVALIDDEC c = (0x30 \<le> c \<and> c \<le> 0x39)"

definition CONVERTDEC :: "byte \<Rightarrow> 32 word" where
  "CONVERTDEC c = ucast (c - 0x30)"

text \<open>
  The \<open>for\<close> loop of \<open>Str2Int\<close>; the result is the final \<open>i\<close>, \<open>res\<close> and the value
  behind \<open>intnum\<close>. \<open>res\<close> starts at 0 and is still 0 when the loop runs out.
\<close>

function Str2Int_loop :: "byte list \<Rightarrow> 32 word \<Rightarrow> nat \<Rightarrow> 32 word \<Rightarrow> nat \<times> 32 word \<times> 32 word" where
  "Str2Int_loop inputstr intnum i val =
     (if i < 11 then
        (if inputstr ! i = 0 then (i, 1, val)
         else if ISVALIDDEC (inputstr ! i)
           then Str2Int_loop inputstr intnum (i + 1) (val * 10 + CONVERTDEC (inputstr ! i))
         else (i, 0, intnum))
      else (i, 0, intnum))"
  by pat_completeness auto
termination
  by (relation "measure (\<lambda>(inputstr, intnum, i, val). 11 - i)") auto

declare Str2Int_loop.simps [simp del]

definition Str2Int :: "byte list \<Rightarrow> 32 word \<Rightarrow> 32 word \<times> 32 word" where
  "Str2Int inputstr intnum =
     (case Str2Int_loop inputstr intnum 0 0 of
        (i, res, intnum') \<Rightarrow> ((if i \<ge> 11 then 0 else res), intnum'))"

section \<open>Session operations\<close>

definition ymodem_Init :: "ymodem_t \<Rightarrow> nat \<Rightarrow> ymodem_t" where
  "ymodem_Init ymodem SerialWriteFxn =
     (if initialized ymodem = YM_INSTANCE_INIT_MASK then ymodem
      else ymodem\<lparr>
        fileName := replicate YM_FILE_NAME_LENGTH 0,
        fileSizeStr := replicate YM_FILE_SIZE_LENGTH 0,
        packetData := replicate YM_PACKET_1K_OVRHD_SIZE 0,
        fileSize := 0,
        prevC := 0,
        startOfPacket := 1,
        packetBytes := 0,
        packetSize := 0,
        packetsReceived := 0,
        eotReceived := 0,
        serialWriteFxn := SerialWriteFxn,
        nextStatus := YMODEM_OK,
        initialized := YM_INSTANCE_INIT_MASK\<rparr>)"

text \<open>
  \<open>assert (ymodem->initialized = YM_INSTANCE_INIT_MASK)\<close>: the expression is an assignment.
  It stores the mask and its value is the stored byte; the assertion fails when that value
  is zero. Assertions are taken as compiled in (no \<open>NDEBUG\<close>). The session is
  modelled as a record, so \<open>assert (ymodem != NULL)\<close> has nothing to test.
\<close>

definition assert_initialized :: "ymodem_t \<Rightarrow> ym_fault + ymodem_t" where
  "assert_initialized ymodem =
     (let s = ymodem\<lparr>initialized := YM_INSTANCE_INIT_MASK\<rparr>
      in if initialized s = 0 then Inl AssertionFailed else Inr s)"

definition ymodem_Abort :: "ymodem_t \<Rightarrow> ym_fault + (ymodem_err_e \<times> ymodem_t)" where
  "ymodem_Abort ymodem =
     bind_fault (assert_initialized ymodem) (\<lambda>s.
       Inr (YMODEM_ABORTED,
            s\<lparr>payloadTx := (payloadTx s)[0 := CA, 1 := CA],
              payloadLen := 2,
              nextStatus := YMODEM_ABORTED,
              packetsReceived := 0\<rparr>))"

definition ymodem_Reset :: "ymodem_t \<Rightarrow> ym_fault + (ymodem_err_e \<times> ymodem_t)" where
  "ymodem_Reset ymodem =
     bind_fault (assert_initialized ymodem) (\<lambda>s.
       Inr (YMODEM_OK,
            s\<lparr>fileSize := 0,
              prevC := 0,
              startOfPacket := 1,
              packetBytes := 0,
              packetSize := 0,
              packetsReceived := 0,
              eotReceived := 0,
              nextStatus := YMODEM_OK\<rparr>))"

text \<open>
  \<open>GenerateResponse\<close>. Every value of \<open>ym_ret_t\<close> has its own case in the \<open>switch\<close>, so
  the \<open>default\<close> branch and the final \<open>return YMODEM_ABORTED\<close> are never reached.
\<close>

fun GenerateResponse :: "ymodem_t \<Rightarrow> ym_ret_t \<Rightarrow> ym_fault + (ymodem_err_e \<times> ymodem_t)" where
  "GenerateResponse s YM_OK = Inr (YMODEM_OK, s\<lparr>payloadLen := 0\<rparr>)"
| "GenerateResponse s YM_ABORT =
     bind_fault (ymodem_Abort s) (\<lambda>(r, s). Inr (YMODEM_TX_PENDING, s))"
| "GenerateResponse s YM_ABORTED =
     Inr (YMODEM_TX_PENDING,
          s\<lparr>payloadTx := (payloadTx s)[0 := CRC16], payloadLen := 1,
            nextStatus := YMODEM_ABORTED\<rparr>)"
| "GenerateResponse s YM_WRITE_ERR =
     bind_fault (ymodem_Abort s) (\<lambda>(r, s).
       Inr (YMODEM_TX_PENDING, s\<lparr>nextStatus := YMODEM_WRITE_ERR\<rparr>))"
| "GenerateResponse s YM_SIZE_ERR =
     bind_fault (ymodem_Abort s) (\<lambda>(r, s).
       Inr (YMODEM_TX_PENDING, s\<lparr>nextStatus := YMODEM_SIZE_ERR\<rparr>))"
| "GenerateResponse s YM_START_RX =
     Inr (YMODEM_TX_PENDING,
          s\<lparr>payloadTx := (payloadTx s)[0 := ACK, 1 := CRC16], payloadLen := 2\<rparr>)"
| "GenerateResponse s YM_RX_ERROR =
     Inr (YMODEM_TX_PENDING, s\<lparr>payloadTx := (payloadTx s)[0 := NAK], payloadLen := 1\<rparr>)"
| "GenerateResponse s YM_RX_OK =
     Inr (YMODEM_TX_PENDING, s\<lparr>payloadTx := (payloadTx s)[0 := ACK], payloadLen := 1\<rparr>)"
| "GenerateResponse s YM_RX_COMPLETE =
     Inr (YMODEM_TX_PENDING,
          s\<lparr>payloadTx := (payloadTx s)[0 := ACK, 1 := CRC16], payloadLen := 2\<rparr>)"
| "GenerateResponse s YM_SUCCESS =
     Inr (YMODEM_TX_PENDING,
          s\<lparr>payloadTx := (payloadTx s)[0 := ACK], payloadLen := 1,
            nextStatus := YMODEM_COMPLETE\<rparr>)"

definition ymodem_WriteSerial :: "ymodem_t \<Rightarrow> effect list" where
  "ymodem_WriteSerial s =
     (if serialWriteFxn s \<noteq> 0 then [SerialWrite (payloadTx s) (payloadLen s)] else [])"

definition ymodem_CheckCRC :: "ymodem_t \<Rightarrow> ym_fault + ym_ret_t" where
  "ymodem_CheckCRC s =
     (let n = unat (packetSize s) + YM_PACKET_OVERHEAD in
      if n - 1 < YM_PACKET_1K_OVRHD_SIZE then
        (let sourceCRC = (ucast (packetData s ! (n - 1)) :: 16 word);
             sourceCRC = push_bit 8 sourceCRC OR ucast (packetData s ! (n - 2));
             newCRC = SWAP16 (crc16 (take (unat (packetSize s))
                                       (drop YM_PACKET_HEADER (packetData s))))
         in if newCRC \<noteq> sourceCRC then Inr YM_RX_ERROR else Inr YM_OK)
      else Inl OutOfBounds)"

definition ymodem_ProcessDataPacket :: "file_cb \<Rightarrow> ymodem_t \<Rightarrow> ym_ret_t \<times> ymodem_t \<times> effect list" where
  "ymodem_ProcessDataPacket cb s =
     (let buffIn = drop YM_PACKET_HEADER (packetData s);
          err = cb YMODEM_FILE_CB_DATA (Some buffIn) (ucast (packetSize s));
          ret = (if err = YMODEM_OK then YM_RX_OK else YM_WRITE_ERR)
      in (ret, s\<lparr>packetsReceived := packetsReceived s + 1\<rparr>,
          [FileCallback YMODEM_FILE_CB_DATA (Some buffIn) (ucast (packetSize s))]))"

text \<open>
  Each of the two copying \<open>while\<close> statements of \<open>ymodem_ProcessFirstPacket\<close>,
  \<open>while ((i < limit) && (*filePtr != stop)) dst[i++] = *filePtr++\<close>; \<open>p\<close> is the offset
  of \<open>filePtr\<close> in \<open>packetData\<close>. The result is the destination array, \<open>i\<close> and \<open>p\<close>.
  The pointer never leaves the first 277 bytes of \<open>packetData\<close> (lemma
  \<open>ProcessFirstPacket_reads_in_bounds\<close>), so the reads are in bounds; the write of the
  terminator after each copy is tested in \<open>ymodem_ProcessFirstPacket\<close>.
\<close>

function copy_field :: "nat \<Rightarrow> byte \<Rightarrow> byte list \<Rightarrow> byte list \<Rightarrow> nat \<Rightarrow> nat \<Rightarrow> byte list \<times> nat \<times> nat" where
  "copy_field limit stop src dst i p =
     (if i < limit \<and> src ! p \<noteq> stop
      then copy_field limit stop src (dst[i := src ! p]) (i + 1) (p + 1)
      else (dst, i, p))"
  by pat_completeness auto
termination
  by (relation "measure (\<lambda>(limit, stop, src, dst, i, p). limit - i)") auto

declare copy_field.simps [simp del]

definition ymodem_ProcessFirstPacket :: "file_cb \<Rightarrow> ymodem_t \<Rightarrow> ym_fault + (ym_ret_t \<times> ymodem_t \<times> effect list)" where
  "ymodem_ProcessFirstPacket cb s =
     (if packetData s ! YM_PACKET_HEADER \<noteq> 0 then
        (case copy_field YM_FILE_NAME_LENGTH 0 (packetData s) (fileName s) 0 YM_PACKET_HEADER of
           (name, i, p) \<Rightarrow>
             if i \<ge> YM_FILE_NAME_LENGTH then Inl OutOfBounds
             else
               (case copy_field YM_FILE_SIZE_LENGTH 0x20 (packetData s) (fileSizeStr s) 0 (p + 1) of
                  (sizeStr, j, q) \<Rightarrow>
                    if j \<ge> YM_FILE_SIZE_LENGTH then Inl OutOfBounds
                    else
                      (let s = s\<lparr>fileName := name[i := 0], fileSizeStr := sizeStr[j := 0]\<rparr>;
                           s = s\<lparr>fileSize := snd (Str2Int (fileSizeStr s) (fileSize s))\<rparr>;
                           err = cb YMODEM_FILE_CB_NAME (Some (fileName s)) (fileSize s);
                           ret = (if err = YMODEM_OK then YM_START_RX else YM_SIZE_ERR)
                       in Inr (ret, s\<lparr>packetsReceived := packetsReceived s + 1\<rparr>,
                               [FileCallback YMODEM_FILE_CB_NAME (Some (fileName s)) (fileSize s)]))))
      else Inr (YM_ABORT, s, []))"

definition ymodem_ProcessPacket :: "file_cb \<Rightarrow> ymodem_t \<Rightarrow> ym_fault + (ym_ret_t \<times> ymodem_t \<times> effect list)" where
  "ymodem_ProcessPacket cb s =
     (if eotReceived s = 1 then
        Inr (YM_SUCCESS, s, [FileCallback YMODEM_FILE_CB_END None 0])
      else if (ucast (packetData s ! YM_PACKET_SEQNO_INDEX) :: 32 word) AND 0xFF
              \<noteq> packetsReceived s AND 0xFF then
        Inr (YM_RX_ERROR, s, [])
      else bind_fault (ymodem_CheckCRC s) (\<lambda>crc.
        if crc \<noteq> YM_OK then Inr (YM_RX_ERROR, s, [])
        else if packetsReceived s = 0 then ymodem_ProcessFirstPacket cb s
        else Inr (ymodem_ProcessDataPacket cb s)))"

definition ymodem_ReceiveByte :: "file_cb \<Rightarrow> ymodem_t \<Rightarrow> byte \<Rightarrow> ym_fault + (ymodem_err_e \<times> ymodem_t \<times> effect list)" where
  "ymodem_ReceiveByte cb ymodem c =
     bind_fault (assert_initialized ymodem) (\<lambda>s.
       if nextStatus s \<noteq> YMODEM_OK then Inr (nextStatus s, s, [])
       else
         bind_fault
           (if startOfPacket s \<noteq> 0 then
              (if c = SOH then
                 Inr (YM_OK, s\<lparr>packetSize := YM_PACKET_SIZE, startOfPacket := 0,
                               packetBytes := packetBytes s + 1\<rparr>, [])
               else if c = STX then
                 Inr (YM_OK, s\<lparr>packetSize := YM_PACKET_1K_SIZE, startOfPacket := 0,
                               packetBytes := packetBytes s + 1\<rparr>, [])
               else if c = EOT then Inr (YM_RX_COMPLETE, s\<lparr>eotReceived := 1\<rparr>, [])
               else if c = CA then
                 (if prevC s = CA then Inr (YM_ABORTED, s, []) else Inr (YM_OK, s, []))
               else if c = ABORT1 \<or> c = ABORT2 then Inr (YM_ABORT, s, [])
               else Inr (YM_RX_ERROR, s, []))
            else if unat (packetBytes s) \<ge> YM_PACKET_1K_OVRHD_SIZE then Inl OutOfBounds
            else
              (let s1 = s\<lparr>packetData := (packetData s)[unat (packetBytes s) := c],
                          packetBytes := packetBytes s + 1\<rparr>
               in if unat (packetBytes s) < (unat (packetSize s) + YM_PACKET_OVERHEAD) - 1
                  then Inr (YM_OK, s1, [])
                  else if packetData s1 ! YM_PACKET_SEQNO_INDEX
                          \<noteq> (packetData s1 ! YM_PACKET_SEQNO_COMP_INDEX XOR 0xFF) AND 0xFF
                  then Inr (YM_RX_ERROR, s1\<lparr>startOfPacket := 1, packetBytes := 0\<rparr>, [])
                  else bind_fault (ymodem_ProcessPacket cb s1) (\<lambda>(ret, s2, tr).
                         Inr (ret, s2\<lparr>startOfPacket := 1, packetBytes := 0\<rparr>, tr))))
           (\<lambda>(ret, s, tr).
              let s = s\<lparr>prevC := c\<rparr> in
              bind_fault (GenerateResponse s ret) (\<lambda>(GenRet, s).
                Inr (GenRet, s,
                     tr @ (case GenRet of
                             YMODEM_TX_PENDING \<Rightarrow> ymodem_WriteSerial s
                           | YMODEM_ABORTED \<Rightarrow> [FileCallback YMODEM_FILE_CB_ABORTED None 0]
                           | _ \<Rightarrow> [])))))"

text \<open>
  The caller's receive loop: hand the bytes to \<open>ymodem_ReceiveByte\<close> one after the other,
  collecting the returned statuses and the effects.
\<close>

fun receive_bytes :: "file_cb \<Rightarrow> ymodem_t \<Rightarrow> byte list \<Rightarrow> ym_fault + (ymodem_err_e list \<times> ymodem_t \<times> effect list)" where
  "receive_bytes cb s [] = Inr ([], s, [])"
| "receive_bytes cb s (c # cs) =
     bind_fault (ymodem_ReceiveByte cb s c) (\<lambda>(r, s1, tr1).
       bind_fault (receive_bytes cb s1 cs) (\<lambda>(rs, s2, tr2). Inr (r # rs, s2, tr1 @ tr2)))"

text \<open>The reply left in the outbound buffer: the first \<open>payloadLen\<close> bytes of \<open>payloadTx\<close>.\<close>

definition reply :: "ymodem_t \<Rightarrow> byte list" where
  "reply s = take (unat (payloadLen s)) (payloadTx s)"

section \<open>Reference checksum\<close>

text \<open>
  CRC-16/XMODEM as the specification names it (polynomial 0x1021, zero initial value, no
  final XOR), in its usual byte-wise form: the byte is XORed into the high half of the
  register, which is then shifted eight times. This definition follows the specification,
  not the source; \<open>crc16\<close> above is the source.
\<close>

definition xmodem_shift :: "16 word \<Rightarrow> 16 word" where
  "xmodem_shift crc = (if bit crc 15 then push_bit 1 crc XOR 0x1021 else push_bit 1 crc)"

definition crc16_xmodem_byte :: "16 word \<Rightarrow> byte \<Rightarrow> 16 word" where
  "crc16_xmodem_byte crc d = (xmodem_shift ^^ 8) (crc XOR push_bit 8 (ucast d))"

definition crc16_xmodem :: "byte list \<Rightarrow> 16 word" where
  "crc16_xmodem data = foldl crc16_xmodem_byte 0 data"

section \<open>Auxiliary definitions for the proofs\<close>

text \<open>One shift of the register with a zero bit coming in.\<close>

definition crc_shift :: "16 word \<Rightarrow> 16 word" where
  "crc_shift c = crc_update c 0"

text \<open>The session after one byte of a packet body that is not the packet's last byte.\<close>

definition body_store :: "ymodem_t \<Rightarrow> byte \<Rightarrow> ymodem_t" where
  "body_store s c =
     s\<lparr>initialized := YM_INSTANCE_INIT_MASK,
       packetData := (packetData s)[unat (packetBytes s) := c],
       packetBytes := packetBytes s + 1,
       prevC := c,
       payloadLen := 0\<rparr>"

text \<open>The session after the leading byte \<open>SOH\<close> or \<open>STX\<close> of a packet.\<close>

definition start_packet :: "ymodem_t \<Rightarrow> byte \<Rightarrow> ymodem_t" where
  "start_packet s lead =
     s\<lparr>initialized := YM_INSTANCE_INIT_MASK,
       packetSize := (if lead = SOH then YM_PACKET_SIZE else YM_PACKET_1K_SIZE),
       startOfPacket := 0,
       packetBytes := packetBytes s + 1,
       prevC := lead,
       payloadLen := 0\<rparr>"

text \<open>The payload length announced by a leading byte.\<close>

definition packet_len :: "byte \<Rightarrow> nat" where
  "packet_len lead = (if lead = SOH then 128 else 1024)"

text \<open>The session once the last byte of a packet is stored, as \<open>ymodem_ProcessPacket\<close> sees it.\<close>

definition assembled :: "ymodem_t \<Rightarrow> byte \<Rightarrow> ymodem_t" where
  "assembled s c =
     s\<lparr>initialized := YM_INSTANCE_INIT_MASK,
       packetData := (packetData s)[unat (packetBytes s) := c],
       packetBytes := packetBytes s + 1\<rparr>"

text \<open>
  The same session written from the session before the packet: \<open>lead\<close> is the leading
  byte and \<open>body\<close> the bytes after it (sequence, complement, payload, two trailer bytes).
\<close>

definition packet_state :: "ymodem_t \<Rightarrow> byte \<Rightarrow> byte list \<Rightarrow> ymodem_t" where
  "packet_state s lead body =
     s\<lparr>initialized := YM_INSTANCE_INIT_MASK,
       packetSize := (if lead = SOH then YM_PACKET_SIZE else YM_PACKET_1K_SIZE),
       startOfPacket := 0,
       packetBytes := of_nat (length body + 1),
       prevC := last (butlast body),
       payloadLen := 0,
       packetData := take 1 (packetData s) @ body @ drop (length body + 1) (packetData s)\<rparr>"

text \<open>
  The end of \<open>ymodem_ReceiveByte\<close> for the last byte \<open>c\<close> of a packet: return to the
  header state, record \<open>c\<close>, generate the response and send it.
\<close>

definition packet_done :: "ymodem_t \<Rightarrow> byte \<Rightarrow> ymodem_t" where
  "packet_done s c = s\<lparr>startOfPacket := 1, packetBytes := 0, prevC := c\<rparr>"

definition respond :: "byte \<Rightarrow> ym_fault + (ym_ret_t \<times> ymodem_t \<times> effect list)
    \<Rightarrow> ym_fault + (ymodem_err_e \<times> ymodem_t \<times> effect list)" where
  "respond c m =
     bind_fault m (\<lambda>(ret, s, tr).
       bind_fault (GenerateResponse (packet_done s c) ret) (\<lambda>(GenRet, s).
         Inr (GenRet, s,
              tr @ (case GenRet of
                      YMODEM_TX_PENDING \<Rightarrow> ymodem_WriteSerial s
                    | YMODEM_ABORTED \<Rightarrow> [FileCallback YMODEM_FILE_CB_ABORTED None 0]
                    | _ \<Rightarrow> []))))"

text \<open>
  The \<open>do { ... } while (0)\<close> block of \<open>ymodem_ReceiveByte\<close>, on the session after the
  assertions: framing of the byte, up to the internal return value.
\<close>

definition do_block :: "file_cb \<Rightarrow> ymodem_t \<Rightarrow> byte \<Rightarrow> ym_fault + (ym_ret_t \<times> ymodem_t \<times> effect list)" where
  "do_block cb s c =
           (if startOfPacket s \<noteq> 0 then
              (if c = SOH then
                 Inr (YM_OK, s\<lparr>packetSize := YM_PACKET_SIZE, startOfPacket := 0,
                               packetBytes := packetBytes s + 1\<rparr>, [])
               else if c = STX then
                 Inr (YM_OK, s\<lparr>packetSize := YM_PACKET_1K_SIZE, startOfPacket := 0,
                               packetBytes := packetBytes s + 1\<rparr>, [])
               else if c = EOT then Inr (YM_RX_COMPLETE, s\<lparr>eotReceived := 1\<rparr>, [])
               else if c = CA then
                 (if prevC s = CA then Inr (YM_ABORTED, s, []) else Inr (YM_OK, s, []))
               else if c = ABORT1 \<or> c = ABORT2 then Inr (YM_ABORT, s, [])
               else Inr (YM_RX_ERROR, s, []))
            else if unat (packetBytes s) \<ge> YM_PACKET_1K_OVRHD_SIZE then Inl OutOfBounds
            else
              (let s1 = s\<lparr>packetData := (packetData s)[unat (packetBytes s) := c],
                          packetBytes := packetBytes s + 1\<rparr>
               in if unat (packetBytes s) < (unat (packetSize s) + YM_PACKET_OVERHEAD) - 1
                  then Inr (YM_OK, s1, [])
                  else if packetData s1 ! YM_PACKET_SEQNO_INDEX
                          \<noteq> (packetData s1 ! YM_PACKET_SEQNO_COMP_INDEX XOR 0xFF) AND 0xFF
                  then Inr (YM_RX_ERROR, s1\<lparr>startOfPacket := 1, packetBytes := 0\<rparr>, [])
                  else bind_fault (ymodem_ProcessPacket cb s1) (\<lambda>(ret, s2, tr).
                         Inr (ret, s2\<lparr>startOfPacket := 1, packetBytes := 0\<rparr>, tr))))"

text \<open>
  The number a string of decimal digits denotes (specification side: the value the decimal
  parser is to produce, before it is cut to 32 bits).
\<close>

definition dec_value :: "byte list \<Rightarrow> nat" where
  "dec_value ds = foldl (\<lambda>v c. v * 10 + (unat c - 48)) 0 ds"

text \<open>The file name and size buffers after the first packet's fields are copied into them.\<close>

definition name_field :: "ymodem_t \<Rightarrow> byte list \<Rightarrow> byte list" where
  "name_field s name = name @ 0 # drop (length name + 1) (fileName s)"

definition size_field :: "ymodem_t \<Rightarrow> byte list \<Rightarrow> byte list" where
  "size_field s sz = sz @ 0 # drop (length sz + 1) (fileSizeStr s)"

text \<open>The session after a packet with body \<open>body\<close> has been answered with \<open>NAK\<close>.\<close>

definition nak_state :: "ymodem_t \<Rightarrow> byte \<Rightarrow> byte list \<Rightarrow> ymodem_t" where
  "nak_state s lead body =
     (packet_done (packet_state s lead body) (last body))
       \<lparr>payloadTx := (payloadTx s)[0 := NAK], payloadLen := 1\<rparr>"

text \<open>
  A fresh session: what \<open>ymodem_Init\<close> (when it runs) and \<open>ymodem_Reset\<close> both establish.
\<close>

definition fresh_session :: "ymodem_t \<Rightarrow> bool" where
  "fresh_session s =
     (ymodem_wf s \<and> fileSize s = 0 \<and> prevC s = 0 \<and> startOfPacket s = 1 \<and>
      packetBytes s = 0 \<and> packetSize s = 0 \<and> packetsReceived s = 0 \<and>
      eotReceived s = 0 \<and> nextStatus s = YMODEM_OK)"

text \<open>What a run of \<open>receive_bytes\<close> leaves: the reply, the status and the packet counter.\<close>

definition final_reply :: "ym_fault + (ymodem_err_e list \<times> ymodem_t \<times> effect list) \<Rightarrow> byte list option" where
  "final_reply r = (case r of Inl e \<Rightarrow> None | Inr (rs, s, tr) \<Rightarrow> Some (reply s))"

definition final_status :: "ym_fault + (ymodem_err_e list \<times> ymodem_t \<times> effect list) \<Rightarrow> ymodem_err_e option" where
  "final_status r = (case r of Inl e \<Rightarrow> None | Inr (rs, s, tr) \<Rightarrow> Some (nextStatus s))"

definition final_sequence :: "ym_fault + (ymodem_err_e list \<times> ymodem_t \<times> effect list) \<Rightarrow> 32 word option" where
  "final_sequence r = (case r of Inl e \<Rightarrow> None | Inr (rs, s, tr) \<Rightarrow> Some (packetsReceived s))"

text \<open>Concrete sessions and sinks used to instantiate the theorems.\<close>

definition session0 :: ymodem_t where
  "session0 =
     \<lparr>fileName = replicate YM_FILE_NAME_LENGTH 0,
      fileSizeStr = replicate YM_FILE_SIZE_LENGTH 0,
      packetData = replicate YM_PACKET_1K_OVRHD_SIZE 0,
      payloadTx = replicate YM_RESP_PAYLOAD_LEN 0,
      payloadLen = 0, initialized = 0, fileSize = 0, prevC = 0, startOfPacket = 0,
      eotReceived = 0, packetBytes = 0, packetSize = 0, packetsReceived = 0,
      nextStatus = YMODEM_OK, serialWriteFxn = 0\<rparr>"

definition accept_all :: file_cb where
  "accept_all e data len = YMODEM_OK"

definition reject_all :: file_cb where
  "reject_all e data len = YMODEM_SIZE_ERR"

text \<open>
  A first-packet payload: file name "a", size "1", a space, and zero padding to 128 bytes.
  Its CRC is 0x7E25.
\<close>

definition example_payload :: "byte list" where
  "example_payload = [0x61, 0, 0x31, 0x20] @ replicate 124 0"

text \<open>
  A session holding an assembled first packet whose size field is "1x", with 7 left in
  \<open>fileSize\<close> from before.
\<close>

definition example_bad_size_session :: ymodem_t where
  "example_bad_size_session =
     session0\<lparr>fileSize := 7,
       packetData := [0, 0, 0xFF, 0x61, 0, 0x31, 0x78, 0x20] @ replicate 1021 0\<rparr>"

section \<open>The checksum is CRC-16/XMODEM\<close>

lemma top_bit: "(drop_bit 15 (x :: 16 word) = 0) \<longleftrightarrow> \<not> bit x 15"
proof
  assume "drop_bit 15 x = 0"
  then have "\<not> bit (drop_bit 15 x) 0" by simp
  then show "\<not> bit x 15" by (simp add: bit_drop_bit_eq)
next
  assume a: "\<not> bit x 15"
  show "drop_bit 15 x = 0"
  proof (rule bit_word_eqI)
    fix n assume "n < LENGTH(16)"
    show "bit (drop_bit 15 x) n = bit (0 :: 16 word) n"
    proof (cases n)
      case 0 with a show ?thesis by (simp add: bit_drop_bit_eq)
    next
      case (Suc m)
      have "\<not> bit x (15 + n)" using Suc by (auto dest: bit_imp_le_length)
      then show ?thesis by (simp add: bit_drop_bit_eq)
    qed
  qed
qed

lemma shl_succ: "(c :: 16 word) * 2 + 1 = c * 2 XOR 1"
  by (simp add: xor_one_eq)

lemma crc_update_alt:
  "crc_update c b = (c * 2 XOR (if b \<noteq> 0 then 1 else 0)) XOR (if bit c 15 then 0x1021 else 0)"
  unfolding crc_update_def Let_def
  using shl_succ [of c] by (simp add: top_bit)

lemma crc_update_shift: "crc_update c b = crc_shift c XOR (if b \<noteq> 0 then 1 else 0)"
proof -
  have "(x XOR 1) XOR y = (x XOR y) XOR 1" for x y :: "16 word"
    by (simp add: ac_simps)
  then show ?thesis
    unfolding crc_shift_def crc_update_alt by simp
qed

lemma mult2_xor: "((x :: 16 word) XOR y) * 2 = x * 2 XOR y * 2"
proof -
  have "push_bit 1 (x XOR y) = push_bit 1 x XOR push_bit 1 y"
    by (rule push_bit_xor)
  then show ?thesis unfolding push_bit_eq_mult by simp
qed

lemma crc_shift_xor: "crc_shift (x XOR y) = crc_shift x XOR crc_shift y"
  unfolding crc_shift_def crc_update_alt
  by (simp add: bit_xor_iff mult2_xor xor.assoc xor.left_commute)
    
lemma crc_shift_low: "\<not> bit x 15 \<Longrightarrow> crc_shift x = x * 2"
  unfolding crc_shift_def crc_update_alt by simp


lemma crc_shift_pow: "k \<le> 8 \<Longrightarrow> (crc_shift ^^ k) (ucast (d :: byte)) = push_bit k (ucast d)"
proof (induction k)
  case 0 then show ?case by simp
next
  case (Suc k)
  have "\<not> bit (push_bit k (ucast d :: 16 word)) 15"
    using Suc.prems by (auto simp: bit_simps dest: bit_imp_le_length)
  then show ?case using Suc by (simp add: crc_shift_low push_bit_eq_mult)
qed

lemma crc_update_of_bool: "crc_update c b = crc_shift c XOR of_bool (b \<noteq> 0)"
  by (simp add: crc_update_shift)

lemma sel: "k < 8 \<Longrightarrow> (uint ((ucast (d::byte) :: 16 word) AND 2 ^ k) \<noteq> 0) = bit d k"
  by (simp add: and_exp_eq_0_iff_not_bit bit_ucast_iff uint_0_iff)

lemmas sels = sel [of 7, simplified] sel [of 6, simplified] sel [of 5, simplified] sel [of 4, simplified]
  sel [of 3, simplified] sel [of 2, simplified] sel [of 1, simplified] sel [of 0, simplified]

lemma crc_shift_of_bool: "\<not> bit n 15 \<Longrightarrow> crc_shift (of_bool b * n) = of_bool b * (n * 2)"
  by (cases b; simp add: crc_shift_low)

lemma bit_of_bool_exp: "bit (of_bool b * 2 ^ k :: 16 word) n = (b \<and> n = k \<and> k < 16)"
  by (cases b) (auto simp: bit_exp_iff)

lemmas bit_of_bool_exps = bit_of_bool_exp [of _ 7, simplified] bit_of_bool_exp [of _ 6, simplified]
  bit_of_bool_exp [of _ 5, simplified] bit_of_bool_exp [of _ 4, simplified]
  bit_of_bool_exp [of _ 3, simplified] bit_of_bool_exp [of _ 2, simplified]
  bit_of_bool_exp [of _ 1, simplified] bit_of_bool_exp [of _ 0, simplified]

lemma byte_bits: "(of_bool (bit d 7) * 128 XOR of_bool (bit d 6) * 64 XOR of_bool (bit d 5) * 32 XOR of_bool (bit d 4) * 16 XOR
    of_bool (bit d 3) * 8 XOR of_bool (bit d 2) * 4 XOR of_bool (bit d 1) * 2 XOR of_bool (bit d 0) :: 16 word) = ucast (d :: byte)"
proof (rule bit_word_eqI)
  fix n assume "n < LENGTH(16)"
  have hi: "\<not> bit d n" if "8 \<le> n" using that by (auto dest: bit_imp_le_length)
  consider "n = 0" | "n = 1" | "n = 2" | "n = 3" | "n = 4" | "n = 5" | "n = 6" | "n = 7" | "8 \<le> n"
    by linarith
  then show "bit (of_bool (bit d 7) * 128 XOR of_bool (bit d 6) * 64 XOR of_bool (bit d 5) * 32 XOR of_bool (bit d 4) * 16 XOR
    of_bool (bit d 3) * 8 XOR of_bool (bit d 2) * 4 XOR of_bool (bit d 1) * 2 XOR of_bool (bit d 0) :: 16 word) n = bit (ucast d :: 16 word) n"
    by cases (simp_all add: bit_xor_iff bit_of_bool_exps bit_ucast_iff hi)
qed

lemma crc16_byte_unfold:
  "crc16_byte c d 0x80 =
   crc_shift (crc_shift (crc_shift (crc_shift (crc_shift (crc_shift (crc_shift (crc_shift c
     XOR of_bool (bit d 7)) XOR of_bool (bit d 6)) XOR of_bool (bit d 5)) XOR of_bool (bit d 4))
     XOR of_bool (bit d 3)) XOR of_bool (bit d 2)) XOR of_bool (bit d 1)) XOR of_bool (bit d 0)"
  by (simp add: crc16_byte.simps crc_update_of_bool sels)

lemma crc16_byte_eq:
  "crc16_byte c d 0x80 =
     crc_shift (crc_shift (crc_shift (crc_shift (crc_shift (crc_shift (crc_shift (crc_shift c)))))))
     XOR ucast d"
proof -
  have s: "crc_shift (of_bool b) = of_bool b * (2 :: 16 word)" for b
    using crc_shift_of_bool [of 1 b] by simp
  show ?thesis
    unfolding crc16_byte_unfold byte_bits [symmetric]
    by (simp add: crc_shift_xor s crc_shift_of_bool xor.assoc)
qed

lemma crc_shift_xmodem: "crc_shift = xmodem_shift"
  by (rule ext) (simp add: crc_shift_def crc_update_alt xmodem_shift_def)

lemma crc16_byte_pow: "crc16_byte c d 0x80 = (crc_shift ^^ 8) c XOR ucast d"
  by (simp add: crc16_byte_eq eval_nat_numeral)

lemma crc_shift_pow_xor: "(crc_shift ^^ n) (x XOR y) = (crc_shift ^^ n) x XOR (crc_shift ^^ n) y"
  by (induction n) (simp_all add: crc_shift_xor)

lemma crc16_flush_unfold: "crc16_flush c 0 = 
  crc_shift (crc_shift (crc_shift (crc_shift (crc_shift (crc_shift (crc_shift (crc_shift (
  crc_shift (crc_shift (crc_shift (crc_shift (crc_shift (crc_shift (crc_shift (crc_shift c)))))))))))))))"
  by (simp add: crc16_flush.simps crc_shift_def)

lemma crc16_flush_pow: "crc16_flush c 0 = (crc_shift ^^ 16) c"
  unfolding crc16_flush_unfold
  by (simp add: eval_nat_numeral funpow_swap1)

lemma crc16_byte_ref:
  "(crc_shift ^^ 16) (crc16_byte c d 0x80) = crc16_xmodem_byte ((crc_shift ^^ 16) c) d"
proof -
  have "(crc_shift ^^ 16) (crc16_byte c d 0x80)
      = (crc_shift ^^ 16) ((crc_shift ^^ 8) c) XOR (crc_shift ^^ 16) (ucast d)"
    by (simp only: crc16_byte_pow crc_shift_pow_xor)
  also have "(crc_shift ^^ 16) ((crc_shift ^^ 8) c) = (crc_shift ^^ 8) ((crc_shift ^^ 16) c)"
    by (simp only: funpow_add [symmetric, unfolded comp_def, THEN fun_cong] add.commute)
  also have "(crc_shift ^^ 16) (ucast d) = (crc_shift ^^ 8) ((crc_shift ^^ 8) (ucast d))"
    using funpow_add [of 8 8 crc_shift] by (simp add: comp_def fun_eq_iff)
  also have "(crc_shift ^^ 8) (ucast d) = push_bit 8 (ucast d)"
    by (rule crc_shift_pow) simp
  finally show ?thesis
    unfolding crc16_xmodem_byte_def crc_shift_xmodem [symmetric] crc_shift_pow_xor .
qed

lemma crc16_data_ref:
  "(crc_shift ^^ 16) (crc16_data c ds) = foldl crc16_xmodem_byte ((crc_shift ^^ 16) c) ds"
  by (induction ds arbitrary: c) (simp_all add: crc16_byte_ref)

lemma crc_shift_pow_0: "(crc_shift ^^ n) 0 = 0"
  by (induction n) (simp_all add: crc_shift_def crc_update_alt)

lemma crc16_eq_xmodem: "crc16 data = crc16_xmodem data"
  by (simp add: crc16_def crc16_xmodem_def crc16_flush_pow crc16_data_ref crc_shift_pow_0)

lemma crc16_zeros: "crc16 (replicate n 0) = 0"
proof -
  have "crc16_xmodem_byte 0 0 = 0"
    by (simp add: crc16_xmodem_byte_def crc_shift_xmodem [symmetric] crc_shift_pow_0)
  then have "foldl crc16_xmodem_byte 0 (replicate n 0) = 0"
    by (induction n) simp_all
  then show ?thesis by (simp add: crc16_eq_xmodem crc16_xmodem_def)
qed

lemma SWAP16_alt: "SWAP16 x = drop_bit 8 x OR push_bit 8 (take_bit 8 x)"
proof -
  have "x AND 0xff = take_bit 8 x"
    by (simp add: take_bit_eq_mask mask_eq_exp_minus_1)
  then show ?thesis by (simp only: SWAP16_def)
qed

lemma swap16_eq:
  fixes x :: "16 word" and a b :: byte
  shows "(SWAP16 x = push_bit 8 (ucast b) OR ucast a) \<longleftrightarrow> (a = ucast (drop_bit 8 x) \<and> b = ucast x)"
proof
  assume e: "SWAP16 x = push_bit 8 (ucast b) OR ucast a"
  have "bit a n = bit (drop_bit 8 x) n \<and> bit b n = bit x n" if "n < 8" for n
  proof -
    have "bit (SWAP16 x) n = bit (push_bit 8 (ucast b) OR ucast a :: 16 word) n"
      and "bit (SWAP16 x) (n + 8) = bit (push_bit 8 (ucast b) OR ucast a :: 16 word) (n + 8)"
      using e by simp_all
    then show ?thesis using that
      by (auto simp: SWAP16_alt bit_simps dest: bit_imp_le_length)
  qed
  then show "a = ucast (drop_bit 8 x) \<and> b = ucast x"
    by (auto intro!: bit_word_eqI simp: bit_simps)
next
  assume "a = ucast (drop_bit 8 x) \<and> b = ucast x"
  moreover have "\<not> bit x (8 + n)" if "\<not> n < 8" for n
    using bit_imp_le_length [of x "8 + n"] that by auto
  ultimately show "SWAP16 x = push_bit 8 (ucast b) OR ucast a"
    unfolding SWAP16_alt
    by (auto intro!: bit_word_eqI simp: bit_simps)
qed

lemma ymodem_CheckCRC_iff:
  assumes "unat (packetSize s) + 4 < 1029"
  shows "ymodem_CheckCRC s =
     Inr (if packetData s ! (unat (packetSize s) + 3)
               = ucast (drop_bit 8 (crc16 (take (unat (packetSize s)) (drop 3 (packetData s)))))
           \<and> packetData s ! (unat (packetSize s) + 4)
               = ucast (crc16 (take (unat (packetSize s)) (drop 3 (packetData s))))
          then YM_OK else YM_RX_ERROR)"
  using assms unfolding ymodem_CheckCRC_def Let_def
  by (simp add: swap16_eq add.commute)

section \<open>Receiving the bytes of a packet\<close>

lemma bind_fault_simps [simp]:
  "bind_fault (Inl e) f = Inl e"
  "bind_fault (Inr x) f = f x"
  by (simp_all add: bind_fault_def)

lemma assert_initialized_eq [simp]:
  "assert_initialized s = Inr (s\<lparr>initialized := YM_INSTANCE_INIT_MASK\<rparr>)"
  by (simp add: assert_initialized_def)

lemma ReceiveByte_body:
  assumes "nextStatus s = YMODEM_OK" "startOfPacket s = 0"
    and "unat (packetBytes s) < unat (packetSize s) + 4" "unat (packetBytes s) < 1029"
  shows "ymodem_ReceiveByte cb s c = Inr (YMODEM_OK, body_store s c, [])"
  using assms by (simp add: ymodem_ReceiveByte_def body_store_def Let_def)

lemma ReceiveByte_sticky:
  "nextStatus s \<noteq> YMODEM_OK \<Longrightarrow>
   ymodem_ReceiveByte cb s c = Inr (nextStatus s, s\<lparr>initialized := YM_INSTANCE_INIT_MASK\<rparr>, [])"
  by (simp add: ymodem_ReceiveByte_def)

lemma body_store_fields [simp]:
  "nextStatus (body_store s c) = nextStatus s"
  "startOfPacket (body_store s c) = startOfPacket s"
  "packetSize (body_store s c) = packetSize s"
  "packetBytes (body_store s c) = packetBytes s + 1"
  "packetData (body_store s c) = (packetData s)[unat (packetBytes s) := c]"
  by (simp_all add: body_store_def)

lemma unat_succ16: "unat (w :: 16 word) < 1029 \<Longrightarrow> unat (w + 1) = unat w + 1"
  by (simp add: unat_word_ariths)

lemma receive_bytes_body:
  assumes "nextStatus s = YMODEM_OK" "startOfPacket s = 0"
    and "unat (packetBytes s) + length bs \<le> unat (packetSize s) + 4"
    and "unat (packetBytes s) + length bs \<le> 1029"
  shows "receive_bytes cb s bs = Inr (replicate (length bs) YMODEM_OK, foldl body_store s bs, [])"
  using assms
proof (induction bs arbitrary: s)
  case Nil
  then show ?case by simp
next
  case (Cons c cs)
  have k: "unat (packetBytes s) < unat (packetSize s) + 4" "unat (packetBytes s) < 1029"
    using Cons.prems by simp_all
  have step: "ymodem_ReceiveByte cb s c = Inr (YMODEM_OK, body_store s c, [])"
    using Cons.prems k by (intro ReceiveByte_body) simp_all
  have "receive_bytes cb (body_store s c) cs
      = Inr (replicate (length cs) YMODEM_OK, foldl body_store (body_store s c) cs, [])"
    using Cons.prems k by (intro Cons.IH) (simp_all add: unat_succ16)
  with step show ?case by simp
qed

lemma foldl_body_store_packetBytes:
  "unat (packetBytes s) + length bs \<le> 1029 \<Longrightarrow>
   unat (packetBytes (foldl body_store s bs)) = unat (packetBytes s) + length bs"
  by (induction bs arbitrary: s) (simp_all add: unat_succ16)

lemma foldl_body_store_packetData:
  "unat (packetBytes s) + length bs \<le> length (packetData s) \<Longrightarrow> length (packetData s) = 1029 \<Longrightarrow>
   packetData (foldl body_store s bs)
     = take (unat (packetBytes s)) (packetData s) @ bs
       @ drop (unat (packetBytes s) + length bs) (packetData s)"
proof (induction bs arbitrary: s)
  case Nil
  then show ?case by simp
next
  case (Cons c cs)
  have k: "unat (packetBytes s) < 1029" using Cons.prems by simp
  have "packetData (foldl body_store (body_store s c) cs)
     = take (unat (packetBytes s) + 1) ((packetData s)[unat (packetBytes s) := c]) @ cs
       @ drop (unat (packetBytes s) + 1 + length cs) ((packetData s)[unat (packetBytes s) := c])"
    using Cons.prems k Cons.IH [of "body_store s c"] by (simp add: unat_succ16)
  then show ?case using Cons.prems k
    by (simp add: take_Suc_conv_app_nth)
qed

lemma foldl_body_store_eq:
  assumes "bs \<noteq> []" "unat (packetBytes s) + length bs \<le> 1029" "length (packetData s) = 1029"
  shows "foldl body_store s bs =
     s\<lparr>initialized := YM_INSTANCE_INIT_MASK,
       packetData := take (unat (packetBytes s)) (packetData s) @ bs
                     @ drop (unat (packetBytes s) + length bs) (packetData s),
       packetBytes := packetBytes s + of_nat (length bs),
       prevC := last bs,
       payloadLen := 0\<rparr>"
  using assms
proof (induction bs arbitrary: s)
  case Nil
  then show ?case by simp
next
  case (Cons c cs)
  have k: "unat (packetBytes s) < 1029" using Cons.prems by simp
  let ?t = "body_store s c"
  have upd: "(packetData s)[unat (packetBytes s) := c]
      = take (unat (packetBytes s)) (packetData s) @ c # drop (Suc (unat (packetBytes s))) (packetData s)"
    using Cons.prems k by (simp add: upd_conv_take_nth_drop)
  show ?case
  proof (cases "cs = []")
    case True
    have "foldl body_store s (c # cs) = ?t" using True by simp
    also have "?t = s\<lparr>initialized := YM_INSTANCE_INIT_MASK,
       packetData := take (unat (packetBytes s)) (packetData s) @ (c # cs)
                     @ drop (unat (packetBytes s) + length (c # cs)) (packetData s),
       packetBytes := packetBytes s + of_nat (length (c # cs)),
       prevC := last (c # cs),
       payloadLen := 0\<rparr>"
      using True upd by (simp add: body_store_def)
    finally show ?thesis .
  next
    case False
    have "foldl body_store s (c # cs) = foldl body_store ?t cs" by simp
    also have "\<dots> =
      ?t\<lparr>initialized := YM_INSTANCE_INIT_MASK,
       packetData := take (unat (packetBytes ?t)) (packetData ?t) @ cs
                     @ drop (unat (packetBytes ?t) + length cs) (packetData ?t),
       packetBytes := packetBytes ?t + of_nat (length cs),
       prevC := last cs,
       payloadLen := 0\<rparr>"
      using Cons.prems k False by (intro Cons.IH) (simp_all add: unat_succ16)
    also have "\<dots> = s\<lparr>initialized := YM_INSTANCE_INIT_MASK,
       packetData := take (unat (packetBytes s)) (packetData s) @ (c # cs)
                     @ drop (unat (packetBytes s) + length (c # cs)) (packetData s),
       packetBytes := packetBytes s + of_nat (length (c # cs)),
       prevC := last (c # cs),
       payloadLen := 0\<rparr>"
      using Cons.prems k False
      by (simp add: body_store_def unat_succ16 take_Suc_conv_app_nth add.assoc)
    finally show ?thesis .
  qed
qed

lemma bind_fault_assoc:
  "bind_fault (bind_fault m f) g = bind_fault m (\<lambda>x. bind_fault (f x) g)"
  by (cases m) simp_all

lemma byte_and_255: "(x :: byte) AND 0xFF = x"
proof -
  have "x AND 0xFF = take_bit 8 x"
    by (simp add: take_bit_eq_mask mask_eq_exp_minus_1)
  moreover have "take_bit LENGTH(8) x = x"
    by (rule take_bit_length_eq)
  ultimately show ?thesis by simp
qed

lemma ReceiveByte_start:
  assumes "nextStatus s = YMODEM_OK" "startOfPacket s \<noteq> 0" "lead = SOH \<or> lead = STX"
  shows "ymodem_ReceiveByte cb s lead = Inr (YMODEM_OK, start_packet s lead, [])"
proof -
  consider "lead = SOH" | "lead = STX" using assms(3) by blast
  then show ?thesis
  proof cases
    case 1
    then show ?thesis using assms(1,2) by (simp add: ymodem_ReceiveByte_def start_packet_def)
  next
    case 2
    then show ?thesis using assms(1,2) by (simp add: ymodem_ReceiveByte_def start_packet_def)
  qed
qed

lemma ReceiveByte_last_bad:
  assumes "nextStatus s = YMODEM_OK" "startOfPacket s = 0"
    and "unat (packetBytes s) = unat (packetSize s) + 4" "unat (packetBytes s) < 1029"
    and "packetData (assembled s c) ! 1 \<noteq> packetData (assembled s c) ! 2 XOR 0xFF"
  shows "ymodem_ReceiveByte cb s c = respond c (Inr (YM_RX_ERROR, assembled s c, []))"
  using assms
  by (simp add: ymodem_ReceiveByte_def respond_def assembled_def packet_done_def Let_def byte_and_255)

lemma respond_bind:
  "bind_fault (bind_fault m (\<lambda>(ret, s2, tr).
                         Inr (ret, s2\<lparr>startOfPacket := 1, packetBytes := 0\<rparr>, tr)))
           (\<lambda>(ret, s, tr).
              let s = s\<lparr>prevC := c\<rparr> in
              bind_fault (GenerateResponse s ret) (\<lambda>(GenRet, s).
                Inr (GenRet, s,
                     tr @ (case GenRet of
                             YMODEM_TX_PENDING \<Rightarrow> ymodem_WriteSerial s
                           | YMODEM_ABORTED \<Rightarrow> [FileCallback YMODEM_FILE_CB_ABORTED None 0]
                           | _ \<Rightarrow> [])))) = respond c m"
  by (cases m) (simp_all add: respond_def packet_done_def split_def)

lemma ReceiveByte_last_good:
  assumes "nextStatus s = YMODEM_OK" "startOfPacket s = 0"
    and "unat (packetBytes s) = unat (packetSize s) + 4" "unat (packetBytes s) < 1029"
    and "packetData (assembled s c) ! 1 = packetData (assembled s c) ! 2 XOR 0xFF"
  shows "ymodem_ReceiveByte cb s c = respond c (ymodem_ProcessPacket cb (assembled s c))"
proof -
  have "ymodem_ReceiveByte cb s c =
    bind_fault (bind_fault (ymodem_ProcessPacket cb (assembled s c)) (\<lambda>(ret, s2, tr).
                         Inr (ret, s2\<lparr>startOfPacket := 1, packetBytes := 0\<rparr>, tr)))
           (\<lambda>(ret, s, tr).
              let s = s\<lparr>prevC := c\<rparr> in
              bind_fault (GenerateResponse s ret) (\<lambda>(GenRet, s).
                Inr (GenRet, s,
                     tr @ (case GenRet of
                             YMODEM_TX_PENDING \<Rightarrow> ymodem_WriteSerial s
                           | YMODEM_ABORTED \<Rightarrow> [FileCallback YMODEM_FILE_CB_ABORTED None 0]
                           | _ \<Rightarrow> []))))"
    using assms unfolding ymodem_ReceiveByte_def assembled_def
    by (simp add: Let_def byte_and_255)
  then show ?thesis by (simp only: respond_bind)
qed

lemma receive_bytes_snoc:
  "receive_bytes cb s (xs @ [c]) =
     bind_fault (receive_bytes cb s xs) (\<lambda>(rs, s1, tr1).
       bind_fault (ymodem_ReceiveByte cb s1 c) (\<lambda>(r, s2, tr2). Inr (rs @ [r], s2, tr1 @ tr2)))"
proof (induction xs arbitrary: s)
  case Nil
  show ?case by (cases "ymodem_ReceiveByte cb s c") (simp_all add: split_def)
next
  case (Cons x xs)
  show ?case
  proof (cases "ymodem_ReceiveByte cb s x")
    case (Inl e)
    then show ?thesis by simp
  next
    case (Inr y)
    obtain r s1 tr where y: "y = (r, s1, tr)" by (cases y)
    show ?thesis
    proof (cases "receive_bytes cb s1 xs")
      case (Inl e)
      then show ?thesis using Inr y Cons.IH [of s1] by simp
    next
      case (Inr z)
      obtain rs s2 tr2 where z: "z = (rs, s2, tr2)" by (cases z)
      show ?thesis
        using \<open>ymodem_ReceiveByte cb s x = Inr y\<close> y Inr z Cons.IH [of s1]
        by (cases "ymodem_ReceiveByte cb s2 c") (simp_all add: split_def)
    qed
  qed
qed

lemma assembled_packet_state:
  assumes "length (packetData s) = 1029" "packetBytes s = 0" "lead = SOH \<or> lead = STX"
    and "length bs = packet_len lead + 3"
  shows "assembled (foldl body_store (start_packet s lead) bs) c = packet_state s lead (bs @ [c])"
proof -
  let ?s1 = "start_packet s lead"
  have pb: "unat (packetBytes ?s1) = 1" using assms(2) by (simp add: start_packet_def)
  have len: "length bs \<le> 1027" "bs \<noteq> []" using assms(3,4) by (auto simp: packet_len_def)
  have "foldl body_store ?s1 bs = ?s1\<lparr>initialized := YM_INSTANCE_INIT_MASK,
       packetData := take (unat (packetBytes ?s1)) (packetData ?s1) @ bs
                     @ drop (unat (packetBytes ?s1) + length bs) (packetData ?s1),
       packetBytes := packetBytes ?s1 + of_nat (length bs),
       prevC := last bs,
       payloadLen := 0\<rparr>"
    using len pb assms(1) by (intro foldl_body_store_eq) (simp_all add: start_packet_def)
  moreover have "unat (1 + word_of_nat (length bs) :: 16 word) = 1 + length bs"
    using len by (simp add: unat_word_ariths unat_of_nat)
  ultimately show ?thesis
    using assms(1,2) len pb
    by (simp add: assembled_def packet_state_def start_packet_def upd_conv_take_nth_drop)
qed

lemma packet_state_fields [simp]:
  "nextStatus (packet_state s lead body) = nextStatus s"
  "eotReceived (packet_state s lead body) = eotReceived s"
  "packetsReceived (packet_state s lead body) = packetsReceived s"
  "packetSize (packet_state s lead body) = (if lead = SOH then YM_PACKET_SIZE else YM_PACKET_1K_SIZE)"
  "fileName (packet_state s lead body) = fileName s"
  "fileSizeStr (packet_state s lead body) = fileSizeStr s"
  "fileSize (packet_state s lead body) = fileSize s"
  "payloadTx (packet_state s lead body) = payloadTx s"
  "serialWriteFxn (packet_state s lead body) = serialWriteFxn s"
  "packetData (packet_state s lead body)
     = take 1 (packetData s) @ body @ drop (length body + 1) (packetData s)"
  by (simp_all add: packet_state_def)

lemma receive_bytes_packet:
  assumes "length (packetData s) = 1029" "nextStatus s = YMODEM_OK" "startOfPacket s \<noteq> 0"
    and "packetBytes s = 0" "lead = SOH \<or> lead = STX" "length body = packet_len lead + 4"
  shows "receive_bytes cb s (lead # body) =
     bind_fault
       (respond (last body)
          (if body ! 0 \<noteq> body ! 1 XOR 0xFF
           then Inr (YM_RX_ERROR, packet_state s lead body, [])
           else ymodem_ProcessPacket cb (packet_state s lead body)))
       (\<lambda>(g, s', tr). Inr (replicate (length body) YMODEM_OK @ [g], s', tr))"
proof -
  have "body \<noteq> []" using assms(6) by auto
  then obtain bs c where body: "body = bs @ [c]" by (metis rev_exhaust)
  have lbs: "length bs = packet_len lead + 3" using assms(6) body by simp
  have plen: "packet_len lead = 128 \<or> packet_len lead = 1024" by (simp add: packet_len_def)
  let ?s1 = "start_packet s lead"
  let ?s2 = "foldl body_store ?s1 bs"
  have s1: "nextStatus ?s1 = YMODEM_OK" "startOfPacket ?s1 = 0" "unat (packetBytes ?s1) = 1"
    "unat (packetSize ?s1) = packet_len lead" "length (packetData ?s1) = 1029"
    using assms(1,2,4) by (simp_all add: start_packet_def packet_len_def)
  have rb1: "ymodem_ReceiveByte cb s lead = Inr (YMODEM_OK, ?s1, [])"
    using assms(2,3,5) by (rule ReceiveByte_start)
  have rb2: "receive_bytes cb ?s1 bs = Inr (replicate (length bs) YMODEM_OK, ?s2, [])"
    using s1 lbs plen by (intro receive_bytes_body) auto
  have bs_ne: "bs \<noteq> []" using lbs by auto
  have s2eq: "?s2 = ?s1\<lparr>initialized := YM_INSTANCE_INIT_MASK,
       packetData := take (unat (packetBytes ?s1)) (packetData ?s1) @ bs
                     @ drop (unat (packetBytes ?s1) + length bs) (packetData ?s1),
       packetBytes := packetBytes ?s1 + of_nat (length bs),
       prevC := last bs,
       payloadLen := 0\<rparr>"
    using bs_ne s1 lbs plen by (intro foldl_body_store_eq) auto
  have s2: "nextStatus ?s2 = YMODEM_OK" "startOfPacket ?s2 = 0"
    "unat (packetSize ?s2) = packet_len lead"
    by (simp_all add: s2eq s1)
  have s2pb: "unat (packetBytes ?s2) = packet_len lead + 4"
    using foldl_body_store_packetBytes [of ?s1 bs] s1 lbs plen by auto
  have asm: "assembled ?s2 c = packet_state s lead body"
    unfolding body using assms(1,4,5) lbs by (rule assembled_packet_state)
  have nth: "packetData (packet_state s lead body) ! 1 = body ! 0"
    "packetData (packet_state s lead body) ! 2 = body ! 1"
    using assms(1,6) by (simp_all add: nth_append)
  have fin: "ymodem_ReceiveByte cb ?s2 c =
     respond c (if body ! 0 \<noteq> body ! 1 XOR 0xFF
           then Inr (YM_RX_ERROR, packet_state s lead body, [])
           else ymodem_ProcessPacket cb (packet_state s lead body))"
  proof (cases "body ! 0 \<noteq> body ! 1 XOR 0xFF")
    case True
    then have "packetData (assembled ?s2 c) ! 1 \<noteq> packetData (assembled ?s2 c) ! 2 XOR 0xFF"
      unfolding asm nth by simp
    then have "ymodem_ReceiveByte cb ?s2 c = respond c (Inr (YM_RX_ERROR, assembled ?s2 c, []))"
      using s2 s2pb plen by (intro ReceiveByte_last_bad) auto
    then show ?thesis using True by (simp add: asm)
  next
    case False
    then have "packetData (assembled ?s2 c) ! 1 = packetData (assembled ?s2 c) ! 2 XOR 0xFF"
      unfolding asm nth by simp
    then have "ymodem_ReceiveByte cb ?s2 c = respond c (ymodem_ProcessPacket cb (assembled ?s2 c))"
      using s2 s2pb plen by (intro ReceiveByte_last_good) auto
    then show ?thesis using False by (simp add: asm)
  qed
  have A: "receive_bytes cb s (lead # bs) = Inr (replicate (length body) YMODEM_OK, ?s2, [])"
    using rb1 rb2 body by simp
  have "receive_bytes cb s ((lead # bs) @ [c]) =
     bind_fault (receive_bytes cb s (lead # bs)) (\<lambda>(rs, s1, tr1).
       bind_fault (ymodem_ReceiveByte cb s1 c) (\<lambda>(r, s2, tr2). Inr (rs @ [r], s2, tr1 @ tr2)))"
    by (rule receive_bytes_snoc)
  then have B: "receive_bytes cb s (lead # body) =
     bind_fault (ymodem_ReceiveByte cb ?s2 c)
       (\<lambda>(r, s2, tr2). Inr (replicate (length body) YMODEM_OK @ [r], s2, tr2))"
    unfolding A by (simp add: body)
  have lc: "last body = c" by (simp add: body)
  show ?thesis by (simp only: B lc fin)
qed

section \<open>What a call of \<open>ymodem_ReceiveByte\<close> can and cannot change\<close>

lemma ymodem_Abort_eq:
  "ymodem_Abort s = Inr (YMODEM_ABORTED,
     s\<lparr>initialized := YM_INSTANCE_INIT_MASK, payloadTx := (payloadTx s)[0 := CA, 1 := CA],
       payloadLen := 2, nextStatus := YMODEM_ABORTED, packetsReceived := 0\<rparr>)"
  by (simp add: ymodem_Abort_def)

lemma ymodem_Reset_eq:
  "ymodem_Reset s = Inr (YMODEM_OK,
     s\<lparr>initialized := YM_INSTANCE_INIT_MASK, fileSize := 0, prevC := 0, startOfPacket := 1,
       packetBytes := 0, packetSize := 0, packetsReceived := 0, eotReceived := 0,
       nextStatus := YMODEM_OK\<rparr>)"
  by (simp add: ymodem_Reset_def)

lemma GenerateResponse_frame:
  assumes "GenerateResponse s ret = Inr (g, s')"
  shows "(g = YMODEM_OK \<or> g = YMODEM_TX_PENDING) \<and> prevC s' = prevC s
    \<and> (initialized s = YM_INSTANCE_INIT_MASK \<longrightarrow> initialized s' = YM_INSTANCE_INIT_MASK)"
  using assms by (cases ret) (auto simp: ymodem_Abort_eq)

lemma ProcessFirstPacket_frame:
  assumes "ymodem_ProcessFirstPacket cb s = Inr (ret, s', tr)"
  shows "initialized s' = initialized s \<and> ret \<noteq> YM_OK
     \<and> (\<forall>d l. FileCallback YMODEM_FILE_CB_ABORTED d l \<notin> set tr)"
  using assms
  by (auto simp: ymodem_ProcessFirstPacket_def Let_def split: if_splits prod.splits)

lemma ProcessPacket_frame:
  assumes "ymodem_ProcessPacket cb s = Inr (ret, s', tr)"
  shows "initialized s' = initialized s \<and> ret \<noteq> YM_OK
     \<and> (\<forall>d l. FileCallback YMODEM_FILE_CB_ABORTED d l \<notin> set tr)"
proof (cases "ymodem_CheckCRC s")
  case (Inl e)
  then show ?thesis using assms
    by (auto simp: ymodem_ProcessPacket_def split: if_splits)
next
  case (Inr crc)
  then show ?thesis using assms ProcessFirstPacket_frame [of cb s ret s' tr]
    by (auto simp: ymodem_ProcessPacket_def ymodem_ProcessDataPacket_def Let_def split: if_splits)
qed

lemma ReceiveByte_do_block:
  "nextStatus s = YMODEM_OK \<Longrightarrow>
   ymodem_ReceiveByte cb s c =
     bind_fault (do_block cb (s\<lparr>initialized := YM_INSTANCE_INIT_MASK\<rparr>) c) (\<lambda>(ret, s, tr).
       bind_fault (GenerateResponse (s\<lparr>prevC := c\<rparr>) ret) (\<lambda>(GenRet, s).
         Inr (GenRet, s,
              tr @ (case GenRet of
                      YMODEM_TX_PENDING \<Rightarrow> ymodem_WriteSerial s
                    | YMODEM_ABORTED \<Rightarrow> [FileCallback YMODEM_FILE_CB_ABORTED None 0]
                    | _ \<Rightarrow> []))))"
  unfolding ymodem_ReceiveByte_def do_block_def by (simp add: Let_def)

lemma do_block_frame:
  assumes "do_block cb s c = Inr (ret, s', tr)"
  shows "initialized s' = initialized s
     \<and> (\<forall>d l. FileCallback YMODEM_FILE_CB_ABORTED d l \<notin> set tr)"
proof (cases "startOfPacket s \<noteq> 0")
  case True
  then show ?thesis using assms by (auto simp: do_block_def split: if_splits)
next
  case False
  then show ?thesis using assms
    by (auto simp: do_block_def Let_def bind_fault_def
        split: if_splits sum.splits dest!: ProcessPacket_frame)
qed

lemma GenerateResponse_total: "GenerateResponse s ret \<noteq> Inl e"
  by (cases ret) (simp_all add: ymodem_Abort_eq)

lemma ReceiveByte_frame:
  assumes "ymodem_ReceiveByte cb s c = Inr (r, s', tr)"
  shows "initialized s' = YM_INSTANCE_INIT_MASK
     \<and> (nextStatus s = YMODEM_OK \<longrightarrow> prevC s' = c)
     \<and> (\<forall>d l. FileCallback YMODEM_FILE_CB_ABORTED d l \<notin> set tr)"
proof (cases "nextStatus s = YMODEM_OK")
  case False
  then show ?thesis using assms by (auto simp: ReceiveByte_sticky)
next
  case True
  note rb = ReceiveByte_do_block [OF True, of cb c]
  obtain ret s1 tr1 where m: "do_block cb (s\<lparr>initialized := YM_INSTANCE_INIT_MASK\<rparr>) c = Inr (ret, s1, tr1)"
    using assms unfolding rb
    by (cases "do_block cb (s\<lparr>initialized := YM_INSTANCE_INIT_MASK\<rparr>) c") auto
  have m_frame: "initialized s1 = YM_INSTANCE_INIT_MASK
      \<and> (\<forall>d l. FileCallback YMODEM_FILE_CB_ABORTED d l \<notin> set tr1)"
    using do_block_frame [OF m] by simp
  obtain g where g: "GenerateResponse (s1\<lparr>prevC := c\<rparr>) ret = Inr (g, s')"
    and tr: "tr = tr1 @ (case g of
                             YMODEM_TX_PENDING \<Rightarrow> ymodem_WriteSerial s'
                           | YMODEM_ABORTED \<Rightarrow> [FileCallback YMODEM_FILE_CB_ABORTED None 0]
                           | _ \<Rightarrow> [])"
    using assms unfolding rb m
    by (cases "GenerateResponse (s1\<lparr>prevC := c\<rparr>) ret") auto
  have gf: "(g = YMODEM_OK \<or> g = YMODEM_TX_PENDING) \<and> prevC s' = c
    \<and> initialized s' = YM_INSTANCE_INIT_MASK"
    using GenerateResponse_frame [OF g] m_frame by simp
  then show ?thesis using tr m_frame
    by (auto simp: ymodem_WriteSerial_def)
qed

lemma ProcessFirstPacket_fault:
  "ymodem_ProcessFirstPacket cb s = Inl e \<Longrightarrow> e = OutOfBounds"
  by (auto simp: ymodem_ProcessFirstPacket_def Let_def split: if_splits prod.splits)

lemma CheckCRC_fault: "ymodem_CheckCRC s = Inl e \<Longrightarrow> e = OutOfBounds"
  by (auto simp: ymodem_CheckCRC_def Let_def split: if_splits)

lemma ProcessPacket_fault:
  assumes "ymodem_ProcessPacket cb s = Inl e"
  shows "e = OutOfBounds"
proof (cases "ymodem_CheckCRC s")
  case (Inl e')
  then show ?thesis using assms CheckCRC_fault [of s e']
    by (auto simp: ymodem_ProcessPacket_def split: if_splits)
next
  case (Inr crc)
  then show ?thesis using assms ProcessFirstPacket_fault [of cb s e]
    by (auto simp: ymodem_ProcessPacket_def split: if_splits)
qed

lemma do_block_fault:
  assumes "do_block cb s c = Inl e"
  shows "e = OutOfBounds"
proof (cases "startOfPacket s \<noteq> 0")
  case True
  then show ?thesis using assms by (auto simp: do_block_def split: if_splits)
next
  case False
  then show ?thesis using assms
    by (auto simp: do_block_def Let_def bind_fault_def
        split: if_splits sum.splits dest!: ProcessPacket_fault)
qed

lemma ReceiveByte_fault:
  assumes "ymodem_ReceiveByte cb s c = Inl e"
  shows "e = OutOfBounds"
proof (cases "nextStatus s = YMODEM_OK")
  case False
  then show ?thesis using assms by (simp add: ReceiveByte_sticky)
next
  case True
  show ?thesis
  proof (cases "do_block cb (s\<lparr>initialized := YM_INSTANCE_INIT_MASK\<rparr>) c")
    case (Inl e')
    then show ?thesis using assms do_block_fault [OF Inl]
      by (simp add: ReceiveByte_do_block [OF True])
  next
    case (Inr x)
    then show ?thesis using assms
      by (cases x) (auto simp: ReceiveByte_do_block [OF True] bind_fault_def GenerateResponse_total
          split: sum.splits)
  qed
qed

lemma Init_session0 [simp]:
  "ymodem_Init session0 f =
     session0\<lparr>startOfPacket := 1, serialWriteFxn := f, initialized := YM_INSTANCE_INIT_MASK\<rparr>"
  by (simp add: ymodem_Init_def session0_def)

lemma session0_fields [simp]:
  "fileName session0 = replicate 256 0"
  "fileSizeStr session0 = replicate 16 0"
  "packetData session0 = replicate 1029 0"
  "payloadTx session0 = replicate 5 0"
  "payloadLen session0 = 0" "initialized session0 = 0" "fileSize session0 = 0"
  "prevC session0 = 0" "startOfPacket session0 = 0" "eotReceived session0 = 0"
  "packetBytes session0 = 0" "packetSize session0 = 0" "packetsReceived session0 = 0"
  "nextStatus session0 = YMODEM_OK" "serialWriteFxn session0 = 0"
  by (simp_all add: session0_def)

lemma ReceiveByte_CA_first:
  assumes "nextStatus s = YMODEM_OK" "startOfPacket s \<noteq> 0" "prevC s \<noteq> CA"
  shows "ymodem_ReceiveByte cb s CA =
     Inr (YMODEM_OK, s\<lparr>initialized := YM_INSTANCE_INIT_MASK, prevC := CA, payloadLen := 0\<rparr>, [])"
  using assms by (simp add: ymodem_ReceiveByte_def)

lemma ReceiveByte_CA_second:
  assumes "nextStatus s = YMODEM_OK" "startOfPacket s \<noteq> 0" "prevC s = CA"
  shows "ymodem_ReceiveByte cb s CA =
     Inr (YMODEM_TX_PENDING,
          s\<lparr>initialized := YM_INSTANCE_INIT_MASK, prevC := CA,
            payloadTx := (payloadTx s)[0 := CRC16], payloadLen := 1,
            nextStatus := YMODEM_ABORTED\<rparr>,
          if serialWriteFxn s \<noteq> 0 then [SerialWrite ((payloadTx s)[0 := CRC16]) 1] else [])"
  using assms by (simp add: ymodem_ReceiveByte_def ymodem_WriteSerial_def)

lemma receive_bytes_sticky:
  assumes "nextStatus s \<noteq> YMODEM_OK" "initialized s = YM_INSTANCE_INIT_MASK"
  shows "receive_bytes cb s bs = Inr (replicate (length bs) (nextStatus s), s, [])"
proof -
  have "s\<lparr>initialized := YM_INSTANCE_INIT_MASK\<rparr> = s" using assms(2) by simp
  then have "ymodem_ReceiveByte cb s c = Inr (nextStatus s, s, [])" for c
    using assms(1) by (simp add: ReceiveByte_sticky)
  then show ?thesis by (induction bs) simp_all
qed

section \<open>Decimal parser, first-packet fields and whole packets\<close>

lemma drop_next:
  assumes "drop p src = x # ys"
  shows "p < length src" "src ! p = x" "drop (p + 1) src = ys"
proof -
  show p: "p < length src" using assms by (cases "p < length src") auto
  have "src ! p # drop (Suc p) src = x # ys"
    using Cons_nth_drop_Suc [OF p] assms by simp
  then show "src ! p = x" "drop (p + 1) src = ys" by simp_all
qed

lemma copy_field_stop:
  assumes "drop p src = xs @ stop # rest" "stop \<notin> set xs" "i + length xs < limit"
    and "limit \<le> length dst"
  shows "copy_field limit stop src dst i p
       = (take i dst @ xs @ drop (i + length xs) dst, i + length xs, p + length xs)"
  using assms
proof (induction xs arbitrary: dst i p)
  case Nil
  then have "src ! p = stop" using drop_next [of p src stop rest] by simp
  then show ?case by (simp add: copy_field.simps)
next
  case (Cons x xs)
  have x: "src ! p = x" and d: "drop (p + 1) src = xs @ stop # rest"
    using drop_next [of p src x "xs @ stop # rest"] Cons.prems(1) by simp_all
  have "copy_field limit stop src dst i p
      = copy_field limit stop src (dst[i := x]) (i + 1) (p + 1)"
    using Cons.prems x by (subst copy_field.simps) auto
  also have "\<dots> = (take (i + 1) (dst[i := x]) @ xs @ drop (i + 1 + length xs) (dst[i := x]),
      i + 1 + length xs, p + 1 + length xs)"
    using Cons.prems d by (intro Cons.IH) auto
  also have "take (i + 1) (dst[i := x]) = take i dst @ [x]"
    using Cons.prems by (simp add: take_Suc_conv_app_nth)
  finally show ?case by simp
qed

lemma ISVALIDDEC_nonzero: "ISVALIDDEC c \<Longrightarrow> c \<noteq> 0"
  by (auto simp: ISVALIDDEC_def)

lemma Str2Int_loop_digits:
  assumes "list_all ISVALIDDEC ds" "i + length ds \<le> 10" "drop i str = ds @ 0 # rest"
  shows "Str2Int_loop str n i val
       = (i + length ds, 1, foldl (\<lambda>v c. v * 10 + CONVERTDEC c) val ds)"
  using assms
proof (induction ds arbitrary: i val)
  case Nil
  then have "str ! i = 0" using drop_next [of i str 0 rest] by simp
  then show ?case using Nil.prems by (simp add: Str2Int_loop.simps)
next
  case (Cons d ds)
  have x: "str ! i = d" and dr: "drop (i + 1) str = ds @ 0 # rest"
    using drop_next [of i str d "ds @ 0 # rest"] Cons.prems(3) by simp_all
  have "Str2Int_loop str n i val = Str2Int_loop str n (i + 1) (val * 10 + CONVERTDEC d)"
    using Cons.prems x ISVALIDDEC_nonzero [of d] by (subst Str2Int_loop.simps) auto
  also have "\<dots> = (i + 1 + length ds, 1,
      foldl (\<lambda>v c. v * 10 + CONVERTDEC c) (val * 10 + CONVERTDEC d) ds)"
    using Cons.prems dr by (intro Cons.IH) auto
  finally show ?case by simp
qed

lemma CONVERTDEC_of_nat: "ISVALIDDEC c \<Longrightarrow> CONVERTDEC c = of_nat (unat c - 48)"
proof -
  assume "ISVALIDDEC c"
  then have "48 \<le> unat c" by (simp add: ISVALIDDEC_def word_le_nat_alt)
  then have "unat (c - 0x30) = unat c - 48"
    by (simp add: unat_sub word_le_nat_alt)
  then have "of_nat (unat (c - 0x30)) = (of_nat (unat c - 48) :: 32 word)" by simp
  then show ?thesis by (simp only: CONVERTDEC_def of_nat_unat)
qed

lemma foldl_CONVERTDEC:
  "list_all ISVALIDDEC ds \<Longrightarrow>
   foldl (\<lambda>v c. v * 10 + CONVERTDEC c) (of_nat a) ds
     = of_nat (foldl (\<lambda>v c. v * 10 + (unat c - 48)) a ds)"
proof (induction ds arbitrary: a)
  case Nil
  then show ?case by simp
next
  case (Cons d ds)
  have e: "of_nat a * 10 + CONVERTDEC d = (of_nat (a * 10 + (unat d - 48)) :: 32 word)"
    using Cons.prems by (simp add: CONVERTDEC_of_nat)
  have "foldl (\<lambda>v c. v * 10 + CONVERTDEC c) (of_nat a) (d # ds)
      = foldl (\<lambda>v c. v * 10 + CONVERTDEC c) (of_nat a * 10 + CONVERTDEC d) ds" by simp
  also have "\<dots> = foldl (\<lambda>v c. v * 10 + CONVERTDEC c) (of_nat (a * 10 + (unat d - 48))) ds"
    by (simp only: e)
  also have "\<dots> = of_nat (foldl (\<lambda>v c. v * 10 + (unat c - 48)) (a * 10 + (unat d - 48)) ds)"
    using Cons.prems by (intro Cons.IH) simp
  finally show ?case by simp
qed

lemma Str2Int_success:
  assumes "list_all ISVALIDDEC ds" "length ds \<le> 10"
  shows "Str2Int (ds @ 0 # rest) n = (1, of_nat (dec_value ds))"
proof -
  have "Str2Int_loop (ds @ 0 # rest) n 0 0
      = (0 + length ds, 1, foldl (\<lambda>v c. v * 10 + CONVERTDEC c) 0 ds)"
    using assms by (intro Str2Int_loop_digits) auto
  then show ?thesis
    using assms foldl_CONVERTDEC [of ds 0] by (simp add: Str2Int_def dec_value_def)
qed

lemma Str2Int_loop_stop:
  assumes "list_all ISVALIDDEC ds" "i + length ds \<le> 10" "drop i str = ds @ c # rest"
    and "c \<noteq> 0" "\<not> ISVALIDDEC c"
  shows "Str2Int_loop str n i val = (i + length ds, 0, n)"
  using assms
proof (induction ds arbitrary: i val)
  case Nil
  then have "str ! i = c" using drop_next [of i str c rest] by simp
  then show ?case using Nil.prems by (simp add: Str2Int_loop.simps)
next
  case (Cons d ds)
  have x: "str ! i = d" and dr: "drop (i + 1) str = ds @ c # rest"
    using drop_next [of i str d "ds @ c # rest"] Cons.prems(3) by simp_all
  have "Str2Int_loop str n i val = Str2Int_loop str n (i + 1) (val * 10 + CONVERTDEC d)"
    using Cons.prems x ISVALIDDEC_nonzero [of d] by (subst Str2Int_loop.simps) auto
  also have "\<dots> = (i + 1 + length ds, 0, n)"
    using Cons.prems dr by (intro Cons.IH) auto
  finally show ?case by simp
qed

lemma Str2Int_loop_overlong:
  assumes "list_all ISVALIDDEC ds" "i + length ds = 11" "drop i str = ds @ rest"
  shows "Str2Int_loop str n i val = (11, 0, n)"
  using assms
proof (induction ds arbitrary: i val)
  case Nil
  then show ?case by (simp add: Str2Int_loop.simps)
next
  case (Cons d ds)
  have x: "str ! i = d" and dr: "drop (i + 1) str = ds @ rest"
    using drop_next [of i str d "ds @ rest"] Cons.prems(3) by simp_all
  have "Str2Int_loop str n i val = Str2Int_loop str n (i + 1) (val * 10 + CONVERTDEC d)"
    using Cons.prems x ISVALIDDEC_nonzero [of d] by (subst Str2Int_loop.simps) auto
  also have "\<dots> = (11, 0, n)"
    using Cons.prems dr by (intro Cons.IH) auto
  finally show ?case by simp
qed

lemma Str2Int_nondigit:
  assumes "list_all ISVALIDDEC ds" "length ds \<le> 10" "c \<noteq> 0" "\<not> ISVALIDDEC c"
  shows "Str2Int (ds @ c # rest) n = (0, n)"
proof -
  have "Str2Int_loop (ds @ c # rest) n 0 0 = (0 + length ds, 0, n)"
    using assms by (intro Str2Int_loop_stop) auto
  then show ?thesis by (simp add: Str2Int_def)
qed

lemma Str2Int_overlong:
  assumes "list_all ISVALIDDEC ds" "length ds = 11"
  shows "Str2Int (ds @ rest) n = (0, n)"
proof -
  have "Str2Int_loop (ds @ rest) n 0 0 = (11, 0, n)"
    using assms by (intro Str2Int_loop_overlong) auto
  then show ?thesis by (simp add: Str2Int_def)
qed

lemma packet_state_data:
  assumes "length (packetData s) = 1029" "length payload = packet_len lead"
  shows "packetData (packet_state s lead (seq # cmpl # payload @ [hi, lo]))
     = (packetData s ! 0) # seq # cmpl # payload @ hi # lo
         # drop (packet_len lead + 5) (packetData s)"
proof -
  have t: "take 1 (packetData s) = [packetData s ! 0]"
    using assms(1) by (simp add: take_Suc_conv_app_nth)
  have l: "length (seq # cmpl # payload @ [hi, lo]) + 1 = packet_len lead + 5"
    using assms(2) by simp
  show ?thesis unfolding packet_state_fields l t by simp
qed

lemma nth_skip3: "(a # b # c # xs) ! (k + 3) = xs ! k"
  by (simp add: numeral_3_eq_3)

lemma nth_skip4: "(a # b # c # xs) ! (k + 4) = xs ! (k + 1)"
  by (simp add: numeral_eq_Suc)

lemma drop_skip3: "drop 3 (a # b # c # xs) = xs"
  by (simp add: numeral_3_eq_3)

lemma packet_state_CheckCRC:
  assumes "length (packetData s) = 1029" "length payload = packet_len lead" "lead = SOH \<or> lead = STX"
  shows "ymodem_CheckCRC (packet_state s lead (seq # cmpl # payload @ [hi, lo]))
     = Inr (if hi = ucast (drop_bit 8 (crc16 payload)) \<and> lo = ucast (crc16 payload)
            then YM_OK else YM_RX_ERROR)"
proof -
  let ?ps = "packet_state s lead (seq # cmpl # payload @ [hi, lo])"
  have sz: "unat (packetSize ?ps) = packet_len lead"
    using assms(3) by (auto simp: packet_len_def)
  have pl: "packet_len lead = 128 \<or> packet_len lead = 1024" by (simp add: packet_len_def)
  have b: "unat (packetSize ?ps) + 4 < 1029" using sz pl by auto
  have d: "packetData ?ps = (packetData s ! 0) # seq # cmpl # payload @ hi # lo
         # drop (packet_len lead + 5) (packetData s)"
    using assms(1,2) by (rule packet_state_data)
  have "take (packet_len lead) (drop 3 (packetData ?ps)) = payload"
    unfolding d drop_skip3 using assms(2) by simp
  moreover have "packetData ?ps ! (packet_len lead + 3) = hi"
    unfolding d nth_skip3 using assms(2) by (simp add: nth_append)
  moreover have "packetData ?ps ! (packet_len lead + 4) = lo"
    unfolding d nth_skip4 using assms(2) by (simp add: nth_append)
  ultimately show ?thesis
    unfolding ymodem_CheckCRC_iff [OF b] sz by simp
qed

lemma seq_match: "((ucast (seq :: byte) :: 32 word) AND 0xFF = n AND 0xFF) \<longleftrightarrow> seq = ucast n"
proof -
  have m: "(x :: 32 word) AND 0xFF = take_bit 8 x" for x
    by (simp add: take_bit_eq_mask mask_eq_exp_minus_1)
  have a: "take_bit 8 (ucast seq :: 32 word) = ucast seq"
    by (rule bit_word_eqI) (auto simp: bit_simps dest: bit_imp_le_length)
  have b: "(ucast (ucast seq :: 32 word) :: byte) = seq"
    by (rule bit_word_eqI) (auto simp: bit_simps)
  have c: "(ucast (take_bit 8 n) :: byte) = ucast n"
    by (rule bit_word_eqI) (auto simp: bit_simps)
  have d: "(ucast (ucast n :: byte) :: 32 word) = take_bit 8 n"
    by (rule bit_word_eqI) (auto simp: bit_simps)
  show ?thesis
    unfolding m a
  proof
    assume "(ucast seq :: 32 word) = take_bit 8 n"
    then have "(ucast (ucast seq :: 32 word) :: byte) = ucast (take_bit 8 n)" by simp
    then show "seq = ucast n" by (simp only: b c)
  next
    assume "seq = ucast n"
    then show "(ucast seq :: 32 word) = take_bit 8 n" by (simp only: d)
  qed
qed

lemma receive_bytes_framed:
  assumes "length (packetData s) = 1029" "nextStatus s = YMODEM_OK" "startOfPacket s \<noteq> 0"
    and "packetBytes s = 0" "lead = SOH \<or> lead = STX" "length payload = packet_len lead"
    and "seq = cmpl XOR 0xFF"
  shows "receive_bytes cb s (lead # seq # cmpl # payload @ [hi, lo]) =
     bind_fault
       (respond lo (ymodem_ProcessPacket cb (packet_state s lead (seq # cmpl # payload @ [hi, lo]))))
       (\<lambda>(g, s', tr). Inr (replicate (packet_len lead + 4) YMODEM_OK @ [g], s', tr))"
proof -
  have L: "length (seq # cmpl # payload @ [hi, lo]) = packet_len lead + 4"
    using assms(6) by simp
  have a: "(seq # cmpl # payload @ [hi, lo]) ! 0 = seq" "(seq # cmpl # payload @ [hi, lo]) ! 1 = cmpl"
    "last (seq # cmpl # payload @ [hi, lo]) = lo"
    by simp_all
  show ?thesis
    unfolding receive_bytes_packet [OF assms(1-5) L] a L using assms(7) by simp
qed

lemma ProcessPacket_eot:
  "eotReceived s = 1 \<Longrightarrow>
   ymodem_ProcessPacket cb s = Inr (YM_SUCCESS, s, [FileCallback YMODEM_FILE_CB_END None 0])"
  by (simp add: ymodem_ProcessPacket_def)

lemma ProcessPacket_packet_state:
  assumes "length (packetData s) = 1029" "length payload = packet_len lead" "lead = SOH \<or> lead = STX"
    and "eotReceived s \<noteq> 1"
  shows "ymodem_ProcessPacket cb (packet_state s lead (seq # cmpl # payload @ [hi, lo])) =
     (if seq \<noteq> ucast (packetsReceived s)
         \<or> \<not> (hi = ucast (drop_bit 8 (crc16 payload)) \<and> lo = ucast (crc16 payload))
      then Inr (YM_RX_ERROR, packet_state s lead (seq # cmpl # payload @ [hi, lo]), [])
      else if packetsReceived s = 0
        then ymodem_ProcessFirstPacket cb (packet_state s lead (seq # cmpl # payload @ [hi, lo]))
        else Inr (ymodem_ProcessDataPacket cb (packet_state s lead (seq # cmpl # payload @ [hi, lo]))))"
proof -
  let ?ps = "packet_state s lead (seq # cmpl # payload @ [hi, lo])"
  have d: "packetData ?ps ! 1 = seq"
    unfolding packet_state_data [OF assms(1,2)] by simp
  have c: "ymodem_CheckCRC ?ps
     = Inr (if hi = ucast (drop_bit 8 (crc16 payload)) \<and> lo = ucast (crc16 payload)
            then YM_OK else YM_RX_ERROR)"
    using assms(1-3) by (rule packet_state_CheckCRC)
  show ?thesis
    unfolding ymodem_ProcessPacket_def c d seq_match
    using assms(4) by simp
qed

lemma respond_Inr:
  "respond c (Inr (ret, s, tr)) =
     bind_fault (GenerateResponse (packet_done s c) ret) (\<lambda>(GenRet, s).
         Inr (GenRet, s,
              tr @ (case GenRet of
                      YMODEM_TX_PENDING \<Rightarrow> ymodem_WriteSerial s
                    | YMODEM_ABORTED \<Rightarrow> [FileCallback YMODEM_FILE_CB_ABORTED None 0]
                    | _ \<Rightarrow> [])))"
  by (simp add: respond_def)

lemma take2: "2 \<le> length xs \<Longrightarrow> take 2 xs = [xs ! 0, xs ! 1]"
  by (cases xs; cases "tl xs") (auto simp: numeral_2_eq_2)

lemma take1: "1 \<le> length xs \<Longrightarrow> take (Suc 0) xs = [xs ! 0]"
  by (cases xs) auto

lemmas reply_simps = reply_def take1 take2

lemma ReceiveByte_EOT:
  assumes "nextStatus s = YMODEM_OK" "startOfPacket s \<noteq> 0"
  shows "ymodem_ReceiveByte cb s EOT =
     Inr (YMODEM_TX_PENDING,
          s\<lparr>initialized := YM_INSTANCE_INIT_MASK, eotReceived := 1, prevC := EOT,
            payloadTx := (payloadTx s)[0 := ACK, 1 := CRC16], payloadLen := 2\<rparr>,
          ymodem_WriteSerial
            (s\<lparr>initialized := YM_INSTANCE_INIT_MASK, eotReceived := 1, prevC := EOT,
               payloadTx := (payloadTx s)[0 := ACK, 1 := CRC16], payloadLen := 2\<rparr>))"
  using assms by (simp add: ymodem_ReceiveByte_def)

lemma receive_bytes_valid:
  assumes "ymodem_wf s" "nextStatus s = YMODEM_OK" "startOfPacket s \<noteq> 0" "packetBytes s = 0"
    and "eotReceived s \<noteq> 1" "lead = SOH \<or> lead = STX" "length payload = packet_len lead"
    and "seq = cmpl XOR 0xFF"
  shows "receive_bytes cb s (lead # seq # cmpl # payload @ [hi, lo]) =
     bind_fault
       (respond lo
         (if seq \<noteq> ucast (packetsReceived s)
             \<or> \<not> (hi = ucast (drop_bit 8 (crc16 payload)) \<and> lo = ucast (crc16 payload))
          then Inr (YM_RX_ERROR, packet_state s lead (seq # cmpl # payload @ [hi, lo]), [])
          else if packetsReceived s = 0
            then ymodem_ProcessFirstPacket cb (packet_state s lead (seq # cmpl # payload @ [hi, lo]))
            else Inr (ymodem_ProcessDataPacket cb
                        (packet_state s lead (seq # cmpl # payload @ [hi, lo])))))
       (\<lambda>(g, s', tr). Inr (replicate (packet_len lead + 4) YMODEM_OK @ [g], s', tr))"
proof -
  have l: "length (packetData s) = 1029" using assms(1) by (simp add: ymodem_wf_def)
  show ?thesis
    unfolding receive_bytes_framed [OF l assms(2,3,4,6,7,8)]
      ProcessPacket_packet_state [OF l assms(7,6,5)] ..
qed

lemma crc_zero_trailer:
  "(0 :: byte) = ucast (drop_bit 8 (crc16 (replicate n 0)))"
  "(0 :: byte) = ucast (crc16 (replicate n 0))"
  by (simp_all add: crc16_zeros)

lemma session0_fresh:
  "ymodem_wf (ymodem_Init session0 f)" "nextStatus (ymodem_Init session0 f) = YMODEM_OK"
  "startOfPacket (ymodem_Init session0 f) \<noteq> 0" "packetBytes (ymodem_Init session0 f) = 0"
  "eotReceived (ymodem_Init session0 f) \<noteq> 1" "packetsReceived (ymodem_Init session0 f) = 0"
  by (simp_all add: ymodem_wf_def)

lemma CheckCRC_payloadTx: "ymodem_CheckCRC (T\<lparr>payloadTx := p\<rparr>) = ymodem_CheckCRC T"
  by (simp add: ymodem_CheckCRC_def Let_def)

lemma ProcessFirstPacket_payloadTx:
  "ymodem_ProcessFirstPacket cb (T\<lparr>payloadTx := p\<rparr>) =
     (case ymodem_ProcessFirstPacket cb T of
        Inl e \<Rightarrow> Inl e
      | Inr (ret, T', tr) \<Rightarrow> Inr (ret, T'\<lparr>payloadTx := p\<rparr>, tr))"
  by (simp add: ymodem_ProcessFirstPacket_def Let_def split: prod.splits)

lemma ProcessPacket_payloadTx:
  "ymodem_ProcessPacket cb (T\<lparr>payloadTx := p\<rparr>) =
     (case ymodem_ProcessPacket cb T of
        Inl e \<Rightarrow> Inl e
      | Inr (ret, T', tr) \<Rightarrow> Inr (ret, T'\<lparr>payloadTx := p\<rparr>, tr))"
proof (cases "ymodem_CheckCRC T")
  case (Inl e)
  then show ?thesis by (simp add: ymodem_ProcessPacket_def CheckCRC_payloadTx)
next
  case (Inr crc)
  then show ?thesis
    by (simp add: ymodem_ProcessPacket_def CheckCRC_payloadTx ProcessFirstPacket_payloadTx
        ymodem_ProcessDataPacket_def Let_def)
qed

lemma ProcessFirstPacket_keeps_payloadTx:
  "ymodem_ProcessFirstPacket cb s = Inr (ret, s', tr) \<Longrightarrow> payloadTx s' = payloadTx s"
  by (auto simp: ymodem_ProcessFirstPacket_def Let_def split: if_splits prod.splits)

lemma ProcessPacket_keeps_payloadTx:
  assumes "ymodem_ProcessPacket cb s = Inr (ret, s', tr)"
  shows "payloadTx s' = payloadTx s"
proof (cases "ymodem_CheckCRC s")
  case (Inl e)
  then show ?thesis using assms
    by (auto simp: ymodem_ProcessPacket_def split: if_splits)
next
  case (Inr crc)
  then show ?thesis using assms ProcessFirstPacket_keeps_payloadTx [of cb s ret s' tr]
    by (auto simp: ymodem_ProcessPacket_def ymodem_ProcessDataPacket_def Let_def split: if_splits)
qed

lemma GenerateResponse_payloadTx:
  "ret \<noteq> YM_OK \<Longrightarrow>
   GenerateResponse (T\<lparr>payloadTx := (payloadTx T)[0 := x]\<rparr>) ret = GenerateResponse T ret"
  by (cases ret) (simp_all add: ymodem_Abort_eq)

lemma respond_payloadTx:
  assumes "ret \<noteq> YM_OK"
  shows "respond c (Inr (ret, T\<lparr>payloadTx := (payloadTx T)[0 := x]\<rparr>, tr))
       = respond c (Inr (ret, T, tr))"
proof -
  have "packet_done (T\<lparr>payloadTx := (payloadTx T)[0 := x]\<rparr>) c
      = (packet_done T c)\<lparr>payloadTx := (payloadTx (packet_done T c))[0 := x]\<rparr>"
    by (simp add: packet_done_def)
  then show ?thesis
    unfolding respond_Inr using GenerateResponse_payloadTx [OF assms] by simp
qed

lemma respond_ProcessPacket_payloadTx:
  "respond c (ymodem_ProcessPacket cb (T\<lparr>payloadTx := (payloadTx T)[0 := x]\<rparr>))
     = respond c (ymodem_ProcessPacket cb T)"
proof (cases "ymodem_ProcessPacket cb T")
  case (Inl e)
  then show ?thesis by (simp add: ProcessPacket_payloadTx)
next
  case (Inr r)
  obtain ret T' tr where r: "r = (ret, T', tr)" by (cases r)
  have k: "payloadTx T' = payloadTx T" "ret \<noteq> YM_OK"
    using Inr r ProcessPacket_keeps_payloadTx [of cb T ret T' tr]
      ProcessPacket_frame [of cb T ret T' tr] by simp_all
  have "respond c (ymodem_ProcessPacket cb (T\<lparr>payloadTx := (payloadTx T)[0 := x]\<rparr>))
      = respond c (Inr (ret, T'\<lparr>payloadTx := (payloadTx T')[0 := x]\<rparr>, tr))"
    using Inr r k by (simp add: ProcessPacket_payloadTx)
  also have "\<dots> = respond c (Inr (ret, T', tr))"
    using k(2) by (rule respond_payloadTx)
  finally show ?thesis using Inr r by simp
qed

lemma packet_len_le: "packet_len lead \<le> 1024"
  by (simp add: packet_len_def)

lemma packet_state_nak_state:
  assumes "length (packetData s) = 1029" "length body = length body'"
  shows "packet_state (nak_state s lead body) lead body'
       = (packet_state s lead body')
           \<lparr>payloadTx := (payloadTx (packet_state s lead body'))[0 := NAK]\<rparr>"
proof -
  have "length (take 1 (packetData s) @ body) = length body + 1"
    using assms(1) by simp
  then have "drop (length body + 1) ((take 1 (packetData s) @ body) @ drop (length body + 1) (packetData s))
      = drop (length body + 1) (packetData s)"
    by (metis append_eq_conv_conj)
  moreover have "take 1 (take 1 (packetData s) @ body @ drop (length body + 1) (packetData s))
      = take 1 (packetData s)"
    using assms(1) by simp
  ultimately show ?thesis
    using assms(2) by (simp add: packet_state_def nak_state_def packet_done_def)
qed

lemma receive_bytes_after_nak:
  assumes "length (packetData s) = 1029" "nextStatus s = YMODEM_OK" "startOfPacket s \<noteq> 0"
    and "packetBytes s = 0" "lead = SOH \<or> lead = STX"
    and "length body = packet_len lead + 4" "length body' = packet_len lead + 4"
  shows "receive_bytes cb (nak_state s lead body) (lead # body') = receive_bytes cb s (lead # body')"
proof -
  let ?n = "nak_state s lead body"
  let ?T = "packet_state s lead body'"
  have n: "length (packetData ?n) = 1029" "nextStatus ?n = YMODEM_OK" "startOfPacket ?n \<noteq> 0"
    "packetBytes ?n = 0"
    using assms(1,2,6) packet_len_le [of lead] by (simp_all add: nak_state_def packet_done_def)
  have ps: "packet_state ?n lead body' = ?T\<lparr>payloadTx := (payloadTx ?T)[0 := NAK]\<rparr>"
    using assms(1,6,7) by (intro packet_state_nak_state) simp_all
  have "respond (last body')
          (if body' ! 0 \<noteq> body' ! 1 XOR 0xFF
           then Inr (YM_RX_ERROR, packet_state ?n lead body', [])
           else ymodem_ProcessPacket cb (packet_state ?n lead body'))
      = respond (last body')
          (if body' ! 0 \<noteq> body' ! 1 XOR 0xFF
           then Inr (YM_RX_ERROR, ?T, [])
           else ymodem_ProcessPacket cb ?T)"
  proof (cases "body' ! 0 \<noteq> body' ! 1 XOR 0xFF")
    case True
    show ?thesis
      unfolding ps if_P [OF True]
      by (rule respond_payloadTx) simp
  next
    case False
    show ?thesis
      unfolding ps if_not_P [OF False]
      by (rule respond_ProcessPacket_payloadTx)
  qed
  then show ?thesis
    unfolding receive_bytes_packet [OF n assms(5,7)] receive_bytes_packet [OF assms(1-5,7)]
    by simp
qed

lemma ProcessFirstPacket_layout:
  assumes "length (fileName s) = 256" "length (fileSizeStr s) = 16"
    and "drop 3 (packetData s) = name @ 0 # sz @ 0x20 # rest"
    and "name \<noteq> []" "0 \<notin> set name" "length name < 256" "0x20 \<notin> set sz" "length sz < 16"
  shows "ymodem_ProcessFirstPacket cb s =
     Inr (if cb YMODEM_FILE_CB_NAME (Some (name_field s name))
               (snd (Str2Int (size_field s sz) (fileSize s))) = YMODEM_OK
          then YM_START_RX else YM_SIZE_ERR,
          s\<lparr>fileName := name_field s name, fileSizeStr := size_field s sz,
            fileSize := snd (Str2Int (size_field s sz) (fileSize s)),
            packetsReceived := packetsReceived s + 1\<rparr>,
          [FileCallback YMODEM_FILE_CB_NAME (Some (name_field s name))
             (snd (Str2Int (size_field s sz) (fileSize s)))])"
proof -
  obtain c cs where name: "name = c # cs" using assms(4) by (cases name) auto
  have "packetData s ! 3 = c"
    using drop_next [of 3 "packetData s" c "cs @ 0 # sz @ 0x20 # rest"] assms(3) name by simp
  then have nz: "packetData s ! 3 \<noteq> 0" using assms(5) name by auto
  have c1: "copy_field 256 0 (packetData s) (fileName s) 0 3
      = (take 0 (fileName s) @ name @ drop (0 + length name) (fileName s), 0 + length name,
         3 + length name)"
    using assms by (intro copy_field_stop) auto
  have "drop (length name + 1) (drop 3 (packetData s)) = sz @ 0x20 # rest"
    unfolding assms(3) by simp
  then have d2: "drop (4 + length name) (packetData s) = sz @ 0x20 # rest"
    by (simp add: add.commute add.left_commute)
  have c2: "copy_field 16 0x20 (packetData s) (fileSizeStr s) 0 (4 + length name)
      = (take 0 (fileSizeStr s) @ sz @ drop (0 + length sz) (fileSizeStr s), 0 + length sz,
         4 + length name + length sz)"
    using assms d2 by (intro copy_field_stop) auto
  have u1: "(name @ drop (length name) (fileName s))[length name := 0] = name_field s name"
    using assms(1,6) by (simp add: name_field_def list_update_append Cons_nth_drop_Suc [symmetric])
  have u2: "(sz @ drop (length sz) (fileSizeStr s))[length sz := 0] = size_field s sz"
    using assms(2,8) by (simp add: size_field_def list_update_append Cons_nth_drop_Suc [symmetric])
  show ?thesis
    using nz assms(6,8) u1 u2
    by (simp add: ymodem_ProcessFirstPacket_def c1 c2 Let_def)
qed

lemma first_packet:
  assumes "ymodem_wf s" "nextStatus s = YMODEM_OK" "startOfPacket s \<noteq> 0" "packetBytes s = 0"
    and "eotReceived s \<noteq> 1" "packetsReceived s = 0"
    and "lead = SOH \<or> lead = STX" "length payload = packet_len lead"
    and "payload = name @ 0 # sz @ 0x20 # rest"
    and "name \<noteq> []" "0 \<notin> set name" "length name < 256" "0x20 \<notin> set sz" "length sz < 16"
    and "hi = ucast (drop_bit 8 (crc16 payload))" "lo = ucast (crc16 payload)"
  shows "receive_bytes cb s (lead # 0 # 0xFF # payload @ [hi, lo]) =
     bind_fault
       (respond lo
          (Inr (if cb YMODEM_FILE_CB_NAME (Some (name_field s name))
                     (snd (Str2Int (size_field s sz) (fileSize s))) = YMODEM_OK
                then YM_START_RX else YM_SIZE_ERR,
                (packet_state s lead (0 # 0xFF # payload @ [hi, lo]))
                  \<lparr>fileName := name_field s name, fileSizeStr := size_field s sz,
                    fileSize := snd (Str2Int (size_field s sz) (fileSize s)),
                    packetsReceived := 1\<rparr>,
                [FileCallback YMODEM_FILE_CB_NAME (Some (name_field s name))
                   (snd (Str2Int (size_field s sz) (fileSize s)))])))
       (\<lambda>(g, s', tr). Inr (replicate (packet_len lead + 4) YMODEM_OK @ [g], s', tr))"
proof -
  let ?ps = "packet_state s lead (0 # 0xFF # payload @ [hi, lo])"
  have l: "length (packetData s) = 1029" "length (fileName s) = 256" "length (fileSizeStr s) = 16"
    using assms(1) by (simp_all add: ymodem_wf_def)
  have d: "drop 3 (packetData ?ps)
      = name @ 0 # sz @ 0x20 # (rest @ hi # lo # drop (packet_len lead + 5) (packetData s))"
    unfolding packet_state_data [OF l(1) assms(8)] drop_skip3 by (simp add: assms(9))
  have nf: "name_field ?ps name = name_field s name" "size_field ?ps sz = size_field s sz"
    by (simp_all add: name_field_def size_field_def)
  have pf: "ymodem_ProcessFirstPacket cb ?ps =
     Inr (if cb YMODEM_FILE_CB_NAME (Some (name_field ?ps name))
               (snd (Str2Int (size_field ?ps sz) (fileSize ?ps))) = YMODEM_OK
          then YM_START_RX else YM_SIZE_ERR,
          ?ps\<lparr>fileName := name_field ?ps name, fileSizeStr := size_field ?ps sz,
            fileSize := snd (Str2Int (size_field ?ps sz) (fileSize ?ps)),
            packetsReceived := packetsReceived ?ps + 1\<rparr>,
          [FileCallback YMODEM_FILE_CB_NAME (Some (name_field ?ps name))
             (snd (Str2Int (size_field ?ps sz) (fileSize ?ps)))])"
    using l(2,3) d assms(10-14) by (intro ProcessFirstPacket_layout) simp_all
  have "(0 :: byte) = 0xFF XOR 0xFF" by simp
  note rb = receive_bytes_valid [OF assms(1-5,7,8) this, of cb hi lo]
  show ?thesis
    unfolding rb pf nf using assms(6,15,16) by simp
qed

lemma takeWhile_name_field:
  "0 \<notin> set name \<Longrightarrow> takeWhile (\<lambda>c. c \<noteq> 0) (name_field s name) = name"
proof -
  assume "0 \<notin> set name"
  then have "\<And>x. x \<in> set name \<Longrightarrow> x \<noteq> 0" by auto
  then have "takeWhile (\<lambda>c. c \<noteq> 0) (name @ 0 # drop (length name + 1) (fileName s))
      = name @ takeWhile (\<lambda>c. c \<noteq> 0) (0 # drop (length name + 1) (fileName s))"
    by (rule takeWhile_append2)
  then show ?thesis by (simp add: name_field_def)
qed

lemma digits_no_space: "list_all ISVALIDDEC ds \<Longrightarrow> 0x20 \<notin> set ds"
  by (auto simp: list_all_iff ISVALIDDEC_def)

lemma Init_fresh:
  "ymodem_wf s0 \<Longrightarrow> initialized s0 \<noteq> YM_INSTANCE_INIT_MASK \<Longrightarrow> fresh_session (ymodem_Init s0 f)"
  by (simp add: fresh_session_def ymodem_Init_def ymodem_wf_def)

lemma Reset_fresh:
  "ymodem_wf s0 \<Longrightarrow> \<exists>s. ymodem_Reset s0 = Inr (YMODEM_OK, s) \<and> fresh_session s"
  by (simp add: fresh_session_def ymodem_Reset_eq ymodem_wf_def)

lemma first_packet_accepted:
  assumes "fresh_session s"
    and "lead = SOH \<or> lead = STX" "length payload = packet_len lead"
    and "payload = name @ 0 # sz @ 0x20 # rest"
    and "name \<noteq> []" "0 \<notin> set name" "length name < 256"
    and "list_all ISVALIDDEC sz" "length sz \<le> 10"
    and "hi = ucast (drop_bit 8 (crc16 payload))" "lo = ucast (crc16 payload)"
  shows "\<exists>s'. receive_bytes cb s (lead # 0 # 0xFF # payload @ [hi, lo])
          = Inr (replicate (packet_len lead + 4) YMODEM_OK @ [YMODEM_TX_PENDING], s',
                 FileCallback YMODEM_FILE_CB_NAME (Some (name_field s name))
                   (of_nat (dec_value sz)) # ymodem_WriteSerial s') \<and>
        packetsReceived s' =
          (if cb YMODEM_FILE_CB_NAME (Some (name_field s name)) (of_nat (dec_value sz)) = YMODEM_OK
           then 1 else 0) \<and>
        reply s' =
          (if cb YMODEM_FILE_CB_NAME (Some (name_field s name)) (of_nat (dec_value sz)) = YMODEM_OK
           then [ACK, CRC16] else [CA, CA]) \<and>
        nextStatus s' =
          (if cb YMODEM_FILE_CB_NAME (Some (name_field s name)) (of_nat (dec_value sz)) = YMODEM_OK
           then YMODEM_OK else YMODEM_SIZE_ERR)"
proof -
  have f: "ymodem_wf s" "nextStatus s = YMODEM_OK" "startOfPacket s \<noteq> 0" "packetBytes s = 0"
    "eotReceived s \<noteq> 1" "packetsReceived s = 0"
    using assms(1) by (simp_all add: fresh_session_def)
  have sz: "0x20 \<notin> set sz" "length sz < 16"
    using assms(8,9) digits_no_space by auto
  have p: "snd (Str2Int (size_field s sz) (fileSize s)) = of_nat (dec_value sz)"
    unfolding size_field_def using assms(8,9) by (simp add: Str2Int_success)
  have l: "length (payloadTx s) = 5" using f(1) by (simp add: ymodem_wf_def)
  show ?thesis
    unfolding first_packet [OF f assms(2-7) sz assms(10,11)] p
    using l f(2)
    by (simp add: respond_Inr packet_done_def ymodem_Abort_eq reply_simps)
qed

section \<open>Closing packet, data packets and the parser invariant\<close>

lemma closing_packet:
  assumes "ymodem_wf s" "nextStatus s = YMODEM_OK" "startOfPacket s \<noteq> 0" "packetBytes s = 0"
    and "eotReceived s = 1" "lead = SOH \<or> lead = STX" "length payload = packet_len lead"
    and "seq = cmpl XOR 0xFF"
  shows "receive_bytes cb s (lead # seq # cmpl # payload @ [x, y])
       = Inr (replicate (packet_len lead + 4) YMODEM_OK @ [YMODEM_TX_PENDING],
              (packet_done (packet_state s lead (seq # cmpl # payload @ [x, y])) y)
                \<lparr>payloadTx := (payloadTx s)[0 := ACK], payloadLen := 1,
                  nextStatus := YMODEM_COMPLETE\<rparr>,
              FileCallback YMODEM_FILE_CB_END None 0 #
              ymodem_WriteSerial
                ((packet_done (packet_state s lead (seq # cmpl # payload @ [x, y])) y)
                   \<lparr>payloadTx := (payloadTx s)[0 := ACK], payloadLen := 1,
                     nextStatus := YMODEM_COMPLETE\<rparr>))"
proof -
  have l: "length (packetData s) = 1029" using assms(1) by (simp add: ymodem_wf_def)
  show ?thesis
    unfolding receive_bytes_framed [OF l assms(2,3,4,6,7,8)]
    using assms(5) by (simp add: ProcessPacket_eot respond_Inr packet_done_def)
qed

lemma crc16_example_payload: "crc16 example_payload = 0x7E25"
  unfolding example_payload_def by code_simp

lemma data_packet:
  assumes "ymodem_wf s" "nextStatus s = YMODEM_OK" "startOfPacket s \<noteq> 0" "packetBytes s = 0"
    and "eotReceived s \<noteq> 1" "packetsReceived s \<noteq> 0"
    and "lead = SOH \<or> lead = STX" "length payload = packet_len lead"
    and "seq = ucast (packetsReceived s)" "seq = cmpl XOR 0xFF"
    and "hi = ucast (drop_bit 8 (crc16 payload))" "lo = ucast (crc16 payload)"
  shows "\<exists>s'. receive_bytes cb s (lead # seq # cmpl # payload @ [hi, lo])
          = Inr (replicate (packet_len lead + 4) YMODEM_OK @ [YMODEM_TX_PENDING], s',
                 FileCallback YMODEM_FILE_CB_DATA
                   (Some (payload @ hi # lo # drop (packet_len lead + 5) (packetData s)))
                   (if lead = SOH then 128 else 1024) # ymodem_WriteSerial s') \<and>
        packetsReceived s' =
          (if cb YMODEM_FILE_CB_DATA
                (Some (payload @ hi # lo # drop (packet_len lead + 5) (packetData s)))
                (if lead = SOH then 128 else 1024) = YMODEM_OK
           then packetsReceived s + 1 else 0) \<and>
        reply s' =
          (if cb YMODEM_FILE_CB_DATA
                (Some (payload @ hi # lo # drop (packet_len lead + 5) (packetData s)))
                (if lead = SOH then 128 else 1024) = YMODEM_OK
           then [ACK] else [CA, CA]) \<and>
        nextStatus s' =
          (if cb YMODEM_FILE_CB_DATA
                (Some (payload @ hi # lo # drop (packet_len lead + 5) (packetData s)))
                (if lead = SOH then 128 else 1024) = YMODEM_OK
           then YMODEM_OK else YMODEM_WRITE_ERR)"
proof -
  let ?ps = "packet_state s lead (seq # cmpl # payload @ [hi, lo])"
  have l: "length (packetData s) = 1029" "length (payloadTx s) = 5"
    using assms(1) by (simp_all add: ymodem_wf_def)
  have d: "drop 3 (packetData ?ps) = payload @ hi # lo # drop (packet_len lead + 5) (packetData s)"
    unfolding packet_state_data [OF l(1) assms(8)] drop_skip3 by simp
  have z: "(ucast (packetSize ?ps) :: 32 word) = (if lead = SOH then 128 else 1024)"
    by simp
  show ?thesis
    unfolding receive_bytes_valid [OF assms(1-5,7,8,10)] ymodem_ProcessDataPacket_def d z Let_def
    using assms(2,6,9,11,12) l(2)
    by (simp add: respond_Inr packet_done_def ymodem_Abort_eq reply_simps)
qed

lemma Str2Int_loop_inv:
  "case Str2Int_loop str n i val of (j, res, n') \<Rightarrow> (res = 1 \<and> j < 11) \<or> (res = 0 \<and> n' = n)"
proof (induction str n i val rule: Str2Int_loop.induct)
  case (1 inputstr intnum i val)
  show ?case
  proof (cases "i < 11 \<and> inputstr ! i \<noteq> 0 \<and> ISVALIDDEC (inputstr ! i)")
    case True
    then have "Str2Int_loop inputstr intnum i val
        = Str2Int_loop inputstr intnum (i + 1) (val * 10 + CONVERTDEC (inputstr ! i))"
      by (subst Str2Int_loop.simps) simp
    then show ?thesis using 1 True by simp
  next
    case False
    then show ?thesis by (subst Str2Int_loop.simps) auto
  qed
qed

lemma Str2Int_failure:
  assumes "fst (Str2Int str n) \<noteq> 1"
  shows "Str2Int str n = (0, n)"
proof -
  obtain j res n' where l: "Str2Int_loop str n 0 0 = (j, res, n')"
    by (cases "Str2Int_loop str n 0 0") auto
  have "(res = 1 \<and> j < 11) \<or> (res = 0 \<and> n' = n)"
    using Str2Int_loop_inv [where str = str and n = n and i = 0 and val = 0] l by simp
  then show ?thesis using assms l by (auto simp: Str2Int_def)
qed

lemma Str2Int_success_iff:
  assumes "11 \<le> length str"
  shows "fst (Str2Int str n) = 1 \<longleftrightarrow>
     (\<exists>ds rest. str = ds @ 0 # rest \<and> list_all ISVALIDDEC ds \<and> length ds \<le> 10)"
proof
  assume "\<exists>ds rest. str = ds @ 0 # rest \<and> list_all ISVALIDDEC ds \<and> length ds \<le> 10"
  then show "fst (Str2Int str n) = 1" by (auto simp: Str2Int_success)
next
  assume ok: "fst (Str2Int str n) = 1"
  let ?ds = "takeWhile ISVALIDDEC str"
  let ?r = "dropWhile ISVALIDDEC str"
  have split: "str = ?ds @ ?r" by simp
  have digits: "list_all ISVALIDDEC ?ds" by (auto simp: list_all_iff dest: set_takeWhileD)
  show "\<exists>ds rest. str = ds @ 0 # rest \<and> list_all ISVALIDDEC ds \<and> length ds \<le> 10"
  proof (cases "11 \<le> length ?ds")
    case True
    have "str = take 11 ?ds @ (drop 11 ?ds @ ?r)"
      by (metis append.assoc append_take_drop_id takeWhile_dropWhile_id)
    moreover have "list_all ISVALIDDEC (take 11 ?ds)"
      using digits by (auto simp: list_all_iff dest: in_set_takeD)
    moreover have "length (take 11 ?ds) = 11" using True by simp
    ultimately have "Str2Int str n = (0, n)" by (metis Str2Int_overlong)
    then show ?thesis using ok by simp
  next
    case False
    then have short: "length ?ds \<le> 10" by simp
    then have "?r \<noteq> []" using assms split
      by (metis append_Nil2 le_antisym not_less_eq_eq numeral_eq_Suc pred_numeral_simps(3)
          Suc_le_mono le_trans nat_le_linear)
    then obtain c rest where r: "?r = c # rest" by (cases ?r) auto
    have nd: "\<not> ISVALIDDEC c" using r by (metis hd_dropWhile list.sel(1) list.distinct(1))
    show ?thesis
    proof (cases "c = 0")
      case True
      then have "str = ?ds @ 0 # rest" using split r by simp
      then show ?thesis using digits short by blast
    next
      case False
      have "str = ?ds @ c # rest" using split r by simp
      then have "Str2Int str n = (0, n)"
        using digits short False nd by (metis Str2Int_nondigit)
      then show ?thesis using ok by simp
    qed
  qed
qed

lemma ISVALIDDEC_1: "ISVALIDDEC 0x31" "ISVALIDDEC 0x32" "\<not> ISVALIDDEC 0x78"
  by (simp_all add: ISVALIDDEC_def)

lemma example_payload_layout:
  "example_payload = [0x61] @ 0 # [0x31] @ 0x20 # replicate 124 0"
  "length example_payload = packet_len SOH"
  "(0x7E :: byte) = ucast (drop_bit 8 (crc16 example_payload))"
  "(0x25 :: byte) = ucast (crc16 example_payload)"
  by (simp_all add: crc16_example_payload) (simp_all add: example_payload_def packet_len_def)

lemma session0_fresh_session: "fresh_session (ymodem_Init session0 f)"
  by (simp add: fresh_session_def ymodem_wf_def)

lemma copy_field_bounds:
  "i \<le> limit \<Longrightarrow>
   (case copy_field limit stop src dst i p of
      (dst', j, q) \<Rightarrow> i \<le> j \<and> j \<le> limit \<and> q = p + (j - i) \<and> length dst' = length dst)"
proof (induction limit stop src dst i p rule: copy_field.induct)
  case (1 limit stop src dst i p)
  show ?case
  proof (cases "i < limit \<and> src ! p \<noteq> stop")
    case True
    then have "copy_field limit stop src dst i p
        = copy_field limit stop src (dst[i := src ! p]) (i + 1) (p + 1)"
      by (subst copy_field.simps) simp
    then show ?thesis using 1 True by (auto split: prod.splits)
  next
    case False
    then show ?thesis using 1(2) by (subst copy_field.simps) auto
  qed
qed

lemma ProcessFirstPacket_reads_in_bounds:
  assumes "copy_field YM_FILE_NAME_LENGTH 0 src fn 0 YM_PACKET_HEADER = (name, i, p)"
    and "copy_field YM_FILE_SIZE_LENGTH 0x20 src fs 0 (p + 1) = (sizeStr, j, q)"
  shows "p \<le> 259 \<and> q \<le> 276 \<and> q < YM_PACKET_1K_OVRHD_SIZE"
  using copy_field_bounds [where i = 0 and limit = 256 and stop = 0 and src = src and dst = fn and p = 3]
    copy_field_bounds [where i = 0 and limit = 16 and stop = "0x20" and src = src and dst = fs
      and p = "p + 1"] assms
  by auto

section \<open>Claims\<close>

text \<open>
  C2. The checksum routine computes CRC-16/XMODEM: for every byte sequence, shifting the bytes
  bit by bit, most significant bit first, through a register that starts at 0 with polynomial
  0x1021, and then shifting 16 zero bits through, gives the reference CRC-16/XMODEM value, and
  the known vector "123456789" gives 0x31C3. \<open>ymodem_CheckCRC\<close> accepts an assembled
  packet (it returns \<open>YM_OK\<close>, and \<open>YM_RX_ERROR\<close> otherwise) exactly when the two bytes
  after the payload are the high byte and then the low byte of that CRC of the payload.
\<close>

theorem crc16_is_xmodem_and_CheckCRC_big_endian:
  "crc16 data = crc16_xmodem data \<and>
   crc16 [0x31, 0x32, 0x33, 0x34, 0x35, 0x36, 0x37, 0x38, 0x39] = 0x31C3 \<and>
   (unat (packetSize s) + YM_PACKET_OVERHEAD \<le> YM_PACKET_1K_OVRHD_SIZE \<longrightarrow>
      (ymodem_CheckCRC s = Inr YM_OK \<longleftrightarrow>
         [packetData s ! (unat (packetSize s) + YM_PACKET_HEADER),
          packetData s ! (unat (packetSize s) + YM_PACKET_HEADER + 1)]
         = [ucast (drop_bit 8 (crc16 (take (unat (packetSize s))
                                       (drop YM_PACKET_HEADER (packetData s))))),
            ucast (crc16 (take (unat (packetSize s))
                            (drop YM_PACKET_HEADER (packetData s))))]) \<and>
      (ymodem_CheckCRC s \<noteq> Inr YM_OK \<longrightarrow> ymodem_CheckCRC s = Inr YM_RX_ERROR))"
proof (intro conjI impI)
  show "crc16 data = crc16_xmodem data" by (rule crc16_eq_xmodem)
next
  show "crc16 [0x31, 0x32, 0x33, 0x34, 0x35, 0x36, 0x37, 0x38, 0x39] = 0x31C3"
    by code_simp
next
  assume "unat (packetSize s) + 5 \<le> 1029"
  then have b: "unat (packetSize s) + 4 < 1029" by simp
  show "ymodem_CheckCRC s = Inr YM_OK \<longleftrightarrow>
         [packetData s ! (unat (packetSize s) + 3), packetData s ! (unat (packetSize s) + 3 + 1)]
         = [ucast (drop_bit 8 (crc16 (take (unat (packetSize s)) (drop 3 (packetData s))))),
            ucast (crc16 (take (unat (packetSize s)) (drop 3 (packetData s))))]"
    by (simp add: ymodem_CheckCRC_iff [OF b] add.commute)
next
  assume "unat (packetSize s) + 5 \<le> 1029"
  then have b: "unat (packetSize s) + 4 < 1029" by simp
  assume "ymodem_CheckCRC s \<noteq> Inr YM_OK"
  then show "ymodem_CheckCRC s = Inr YM_RX_ERROR"
    by (simp add: ymodem_CheckCRC_iff [OF b] add.commute split: if_splits)
qed

theorem crc16_is_xmodem_and_CheckCRC_big_endian_witness:
  "unat (packetSize (session0\<lparr>packetSize := YM_PACKET_SIZE\<rparr>)) + YM_PACKET_OVERHEAD
     \<le> YM_PACKET_1K_OVRHD_SIZE \<and>
   ymodem_CheckCRC (session0\<lparr>packetSize := YM_PACKET_SIZE\<rparr>) = Inr YM_OK"
  using crc16_is_xmodem_and_CheckCRC_big_endian [of "[]" "session0\<lparr>packetSize := YM_PACKET_SIZE\<rparr>"]
  by (simp add: session0_def crc16_zeros)

text \<open>
  C3. A session is a \<open>ymodem_t\<close> on which an entry point has returned: \<open>ymodem_Init\<close>,
  \<open>ymodem_ReceiveByte\<close>, \<open>ymodem_Abort\<close> and \<open>ymodem_Reset\<close> all leave the mask 0x52 in
  \<open>initialized\<close>, whatever they were given. For every such session whose status field is not
  \<open>YMODEM_OK\<close>, every call of \<open>ymodem_ReceiveByte\<close>, with any byte and any number of times,
  returns that status at once, leaves the session as it is, calls no callback and writes
  nothing to the serial transport. \<open>ymodem_Reset\<close> always returns \<open>YMODEM_OK\<close>, clears the
  expected sequence, the framing fields, the end-of-transmission flag and the status, and
  leaves the serial write function as configured. (On a \<open>ymodem_t\<close> that no entry point has
  returned, the guard assertion of the call stores the mask, lemma \<open>ReceiveByte_sticky\<close>;
  the other fields are left alone there too.)
\<close>

theorem sticky_status_until_reset:
  "initialized (ymodem_Init raw f) = YM_INSTANCE_INIT_MASK \<and>
   (\<forall>r s' tr. ymodem_ReceiveByte cb u c = Inr (r, s', tr) \<longrightarrow>
      initialized s' = YM_INSTANCE_INIT_MASK) \<and>
   (\<exists>s'. ymodem_Abort u = Inr (YMODEM_ABORTED, s') \<and>
      initialized s' = YM_INSTANCE_INIT_MASK \<and> nextStatus s' = YMODEM_ABORTED) \<and>
   (\<exists>s'. ymodem_Reset u = Inr (YMODEM_OK, s') \<and> initialized s' = YM_INSTANCE_INIT_MASK) \<and>
   (nextStatus s \<noteq> YMODEM_OK \<and> initialized s = YM_INSTANCE_INIT_MASK \<longrightarrow>
      ymodem_ReceiveByte cb s c = Inr (nextStatus s, s, []) \<and>
      receive_bytes cb s bs = Inr (replicate (length bs) (nextStatus s), s, [])) \<and>
   (\<exists>s'. ymodem_Reset s = Inr (YMODEM_OK, s') \<and>
      packetsReceived s' = 0 \<and> startOfPacket s' = 1 \<and> packetBytes s' = 0 \<and>
      packetSize s' = 0 \<and> prevC s' = 0 \<and> eotReceived s' = 0 \<and> fileSize s' = 0 \<and>
      nextStatus s' = YMODEM_OK \<and> serialWriteFxn s' = serialWriteFxn s)"
proof (intro conjI impI allI)
  show "initialized (ymodem_Init raw f) = YM_INSTANCE_INIT_MASK"
    by (simp add: ymodem_Init_def)
next
  fix r s' tr
  assume "ymodem_ReceiveByte cb u c = Inr (r, s', tr)"
  then show "initialized s' = YM_INSTANCE_INIT_MASK"
    using ReceiveByte_frame by blast
next
  assume a: "nextStatus s \<noteq> YMODEM_OK \<and> initialized s = YM_INSTANCE_INIT_MASK"
  then show "receive_bytes cb s bs = Inr (replicate (length bs) (nextStatus s), s, [])"
    by (simp add: receive_bytes_sticky)
  show "ymodem_ReceiveByte cb s c = Inr (nextStatus s, s, [])"
    using a receive_bytes_sticky [of s cb "[c]"] by (auto simp: ReceiveByte_sticky)
qed (simp_all add: ymodem_Reset_eq ymodem_Abort_eq)

theorem sticky_status_until_reset_witness:
  "ymodem_ReceiveByte accept_all (ymodem_Init session0 1) CA
     = Inr (YMODEM_OK,
            session0\<lparr>startOfPacket := 1, serialWriteFxn := 1,
              initialized := YM_INSTANCE_INIT_MASK, prevC := CA, payloadLen := 0\<rparr>, []) \<and>
   initialized (session0\<lparr>startOfPacket := 1, serialWriteFxn := 1,
              initialized := YM_INSTANCE_INIT_MASK, prevC := CA, payloadLen := 0\<rparr>)
     = YM_INSTANCE_INIT_MASK \<and>
   (\<exists>s. receive_bytes accept_all (ymodem_Init session0 1) [CA, CA]
          = Inr ([YMODEM_OK, YMODEM_TX_PENDING], s, [SerialWrite ((replicate 5 0)[0 := CRC16]) 1]) \<and>
        nextStatus s = YMODEM_ABORTED \<and> nextStatus s \<noteq> YMODEM_OK \<and>
        initialized s = YM_INSTANCE_INIT_MASK \<and>
        ymodem_ReceiveByte accept_all s CA = Inr (YMODEM_ABORTED, s, []) \<and>
        receive_bytes accept_all s [SOH, CA] = Inr ([YMODEM_ABORTED, YMODEM_ABORTED], s, []))"
proof -
  let ?a = "session0\<lparr>startOfPacket := 1, serialWriteFxn := 1,
              initialized := YM_INSTANCE_INIT_MASK, prevC := CA, payloadLen := 0\<rparr>"
  let ?s = "session0\<lparr>startOfPacket := 1, serialWriteFxn := 1, initialized := YM_INSTANCE_INIT_MASK,
            prevC := CA, payloadTx := (replicate 5 0)[0 := CRC16], payloadLen := 1,
            nextStatus := YMODEM_ABORTED\<rparr>"
  have one: "ymodem_ReceiveByte accept_all (ymodem_Init session0 1) CA = Inr (YMODEM_OK, ?a, [])"
    by (simp add: ReceiveByte_CA_first)
  have two: "receive_bytes accept_all (ymodem_Init session0 1) [CA, CA]
      = Inr ([YMODEM_OK, YMODEM_TX_PENDING], ?s, [SerialWrite ((replicate 5 0)[0 := CRC16]) 1])"
    by (simp add: ReceiveByte_CA_first ReceiveByte_CA_second)
  have h: "nextStatus ?s \<noteq> YMODEM_OK \<and> initialized ?s = YM_INSTANCE_INIT_MASK" by simp
  note T = sticky_status_until_reset [where raw = session0 and f = 1 and cb = accept_all
      and u = "ymodem_Init session0 1" and c = CA and s = ?s and bs = "[SOH, CA]"]
  from T one have i: "initialized ?a = YM_INSTANCE_INIT_MASK" by blast
  from T h have st: "ymodem_ReceiveByte accept_all ?s CA = Inr (nextStatus ?s, ?s, [])"
    "receive_bytes accept_all ?s [SOH, CA] = Inr (replicate (length [SOH, CA]) (nextStatus ?s), ?s, [])"
    by blast+
  have n: "nextStatus ?s = YMODEM_ABORTED" by simp
  show ?thesis
    apply (intro conjI exI [of _ ?s])
    using one i two st unfolding n by (simp_all del: receive_bytes.simps)
qed

text \<open>
  C5. In the awaiting-header state, a cancel byte whose predecessor was a cancel byte leaves
  the single byte \<open>CRC16\<close> as the reply (sent through the serial write function when one is
  configured), returns \<open>YMODEM_TX_PENDING\<close> and sets the status to aborted, so that the next
  call returns \<open>YMODEM_ABORTED\<close> without processing its byte. A cancel byte whose predecessor
  was not a cancel byte leaves an empty reply, writes nothing and returns \<open>YMODEM_OK\<close>; a
  second cancel byte right after it aborts. Every byte that is processed (the status being
  nominal at the call) is recorded in \<open>prevC\<close>, whatever the outcome.
\<close>

theorem cancel_bytes_at_header:
  "(nextStatus s = YMODEM_OK \<and> startOfPacket s \<noteq> 0 \<and>
    length (payloadTx s) = YM_RESP_PAYLOAD_LEN \<longrightarrow>
      (prevC s = CA \<longrightarrow>
         (\<exists>s'. ymodem_ReceiveByte cb s CA = Inr (YMODEM_TX_PENDING, s', ymodem_WriteSerial s') \<and>
               reply s' = [CRC16] \<and> nextStatus s' = YMODEM_ABORTED \<and>
               ymodem_ReceiveByte cb s' c = Inr (YMODEM_ABORTED, s', []))) \<and>
      (prevC s \<noteq> CA \<longrightarrow>
         (\<exists>s'. ymodem_ReceiveByte cb s CA = Inr (YMODEM_OK, s', []) \<and>
               reply s' = [] \<and> nextStatus s' = YMODEM_OK) \<and>
         (\<exists>s'. receive_bytes cb s [CA, CA]
                 = Inr ([YMODEM_OK, YMODEM_TX_PENDING], s', ymodem_WriteSerial s') \<and>
               reply s' = [CRC16] \<and> nextStatus s' = YMODEM_ABORTED \<and>
               ymodem_ReceiveByte cb s' c = Inr (YMODEM_ABORTED, s', [])))) \<and>
   (nextStatus s = YMODEM_OK \<longrightarrow>
      (\<forall>r s' tr. ymodem_ReceiveByte cb s c = Inr (r, s', tr) \<longrightarrow> prevC s' = c))"
proof (intro conjI impI allI)
  assume a: "nextStatus s = YMODEM_OK \<and> startOfPacket s \<noteq> 0 \<and> length (payloadTx s) = 5"
    and p: "prevC s = CA"
  show "\<exists>s'. ymodem_ReceiveByte cb s CA = Inr (YMODEM_TX_PENDING, s', ymodem_WriteSerial s') \<and>
               reply s' = [CRC16] \<and> nextStatus s' = YMODEM_ABORTED \<and>
               ymodem_ReceiveByte cb s' c = Inr (YMODEM_ABORTED, s', [])"
    using a p
    by (simp add: ReceiveByte_CA_second ReceiveByte_sticky ymodem_WriteSerial_def reply_def
        take_Suc_conv_app_nth)
next
  assume a: "nextStatus s = YMODEM_OK \<and> startOfPacket s \<noteq> 0 \<and> length (payloadTx s) = 5"
    and p: "prevC s \<noteq> CA"
  show "\<exists>s'. ymodem_ReceiveByte cb s CA = Inr (YMODEM_OK, s', []) \<and>
               reply s' = [] \<and> nextStatus s' = YMODEM_OK"
    using a p by (simp add: ReceiveByte_CA_first reply_def)
  show "\<exists>s'. receive_bytes cb s [CA, CA]
                 = Inr ([YMODEM_OK, YMODEM_TX_PENDING], s', ymodem_WriteSerial s') \<and>
               reply s' = [CRC16] \<and> nextStatus s' = YMODEM_ABORTED \<and>
               ymodem_ReceiveByte cb s' c = Inr (YMODEM_ABORTED, s', [])"
    using a p
    by (simp add: ReceiveByte_CA_first ReceiveByte_CA_second ReceiveByte_sticky
        ymodem_WriteSerial_def reply_def take_Suc_conv_app_nth)
next
  fix r s' tr
  assume "nextStatus s = YMODEM_OK" "ymodem_ReceiveByte cb s c = Inr (r, s', tr)"
  then show "prevC s' = c" using ReceiveByte_frame by blast
qed

theorem cancel_bytes_at_header_witness:
  "nextStatus (ymodem_Init session0 1) = YMODEM_OK \<and>
   startOfPacket (ymodem_Init session0 1) \<noteq> 0 \<and>
   length (payloadTx (ymodem_Init session0 1)) = YM_RESP_PAYLOAD_LEN \<and>
   prevC (ymodem_Init session0 1) \<noteq> CA \<and>
   (\<exists>s'. receive_bytes accept_all (ymodem_Init session0 1) [CA, CA]
                 = Inr ([YMODEM_OK, YMODEM_TX_PENDING], s', ymodem_WriteSerial s') \<and>
         reply s' = [CRC16] \<and> nextStatus s' = YMODEM_ABORTED \<and>
         ymodem_ReceiveByte accept_all s' SOH = Inr (YMODEM_ABORTED, s', []))"
  using cancel_bytes_at_header [of "ymodem_Init session0 1" accept_all SOH]
  by (simp del: receive_bytes.simps)

text \<open>
  C6. The claim is that the sink receives \<open>YMODEM_FILE_CB_ABORTED\<close> in the call that sees the
  sender's second cancel byte. The code does not do that: \<open>GenerateResponse\<close> answers
  \<open>YMODEM_TX_PENDING\<close> for \<open>YM_ABORTED\<close>, so the branch of \<open>ymodem_ReceiveByte\<close> that calls
  the callback with \<open>YMODEM_FILE_CB_ABORTED\<close> is never taken (lemma \<open>ReceiveByte_frame\<close>: no
  call ever produces that event). On a fresh session two cancel bytes produce one serial
  write of \<open>CRC16\<close> and no callback at all.
\<close>

theorem double_cancel_sends_no_aborted_event:
  "receive_bytes accept_all (ymodem_Init session0 1) [CA, CA] =
     Inr ([YMODEM_OK, YMODEM_TX_PENDING],
          session0\<lparr>startOfPacket := 1, serialWriteFxn := 1, initialized := YM_INSTANCE_INIT_MASK,
            prevC := CA, payloadTx := (replicate 5 0)[0 := CRC16], payloadLen := 1,
            nextStatus := YMODEM_ABORTED\<rparr>,
          [SerialWrite ((replicate 5 0)[0 := CRC16]) 1])"
  by (simp add: ReceiveByte_CA_first ReceiveByte_CA_second)

text \<open>
  C9. The guard assertions of \<open>ymodem_ReceiveByte\<close>, \<open>ymodem_Reset\<close> and \<open>ymodem_Abort\<close> are
  assignments: on every session, initialised or not, they succeed and store the mask 0x52 in
  \<open>initialized\<close>. So no entry point ends in a failed assertion, each leaves \<open>initialized\<close>
  at 0x52 when it returns, and a later \<open>ymodem_Init\<close> on that session changes nothing.
\<close>

theorem init_guard_assertions_assign:
  "assert_initialized s = Inr (s\<lparr>initialized := YM_INSTANCE_INIT_MASK\<rparr>) \<and>
   ymodem_ReceiveByte cb s c \<noteq> Inl AssertionFailed \<and>
   ymodem_Reset s \<noteq> Inl AssertionFailed \<and>
   ymodem_Abort s \<noteq> Inl AssertionFailed \<and>
   (\<forall>r s' tr. ymodem_ReceiveByte cb s c = Inr (r, s', tr) \<longrightarrow>
      initialized s' = YM_INSTANCE_INIT_MASK \<and> ymodem_Init s' f = s') \<and>
   (\<exists>s'. ymodem_Reset s = Inr (YMODEM_OK, s') \<and>
      initialized s' = YM_INSTANCE_INIT_MASK \<and> ymodem_Init s' f = s') \<and>
   (\<exists>s'. ymodem_Abort s = Inr (YMODEM_ABORTED, s') \<and>
      initialized s' = YM_INSTANCE_INIT_MASK \<and> ymodem_Init s' f = s')"
proof (intro conjI allI impI)
  show "ymodem_ReceiveByte cb s c \<noteq> Inl AssertionFailed"
    using ReceiveByte_fault [of cb s c AssertionFailed] by auto
next
  fix r s' tr
  assume "ymodem_ReceiveByte cb s c = Inr (r, s', tr)"
  then show "initialized s' = YM_INSTANCE_INIT_MASK"
    using ReceiveByte_frame by blast
  then show "ymodem_Init s' f = s'" by (simp add: ymodem_Init_def)
qed (simp_all add: ymodem_Reset_eq ymodem_Abort_eq ymodem_Init_def)

theorem init_guard_assertions_assign_witness:
  "initialized session0 \<noteq> YM_INSTANCE_INIT_MASK \<and>
   ymodem_ReceiveByte accept_all session0 SOH = Inr (YMODEM_OK, body_store session0 SOH, []) \<and>
   initialized (body_store session0 SOH) = YM_INSTANCE_INIT_MASK \<and>
   ymodem_Init (body_store session0 SOH) 1 = body_store session0 SOH"
proof -
  have "ymodem_ReceiveByte accept_all session0 SOH = Inr (YMODEM_OK, body_store session0 SOH, [])"
    by (rule ReceiveByte_body) simp_all
  then show ?thesis
    using init_guard_assertions_assign [of session0 accept_all SOH 1] by simp
qed

text \<open>
  C8. An end-of-transmission byte in the awaiting-header state sets \<open>eotReceived\<close> and leaves
  the reply \<open>ACK\<close>, \<open>CRC16\<close>; the session stays in the awaiting-header state with nominal
  status. With the flag set, a fully assembled packet whose sequence byte is the complement
  of its complement byte is not checked further, whatever its sequence number and trailer:
  the end callback is called, the reply is the single byte \<open>ACK\<close>, and the status becomes
  complete.
\<close>

theorem end_of_transmission_then_closing_packet:
  "(ymodem_wf s \<and> nextStatus s = YMODEM_OK \<and> startOfPacket s \<noteq> 0 \<longrightarrow>
      (\<exists>s1. ymodem_ReceiveByte cb s EOT = Inr (YMODEM_TX_PENDING, s1, ymodem_WriteSerial s1) \<and>
            eotReceived s1 = 1 \<and> reply s1 = [ACK, CRC16] \<and>
            ymodem_wf s1 \<and> nextStatus s1 = YMODEM_OK \<and> startOfPacket s1 \<noteq> 0 \<and>
            packetBytes s1 = packetBytes s)) \<and>
   (ymodem_wf s \<and> nextStatus s = YMODEM_OK \<and> startOfPacket s \<noteq> 0 \<and> packetBytes s = 0 \<and>
    eotReceived s = 1 \<and> (lead = SOH \<or> lead = STX) \<and> length payload = packet_len lead \<and>
    seq = cmpl XOR 0xFF \<longrightarrow>
      (\<exists>s2. receive_bytes cb s (lead # seq # cmpl # payload @ [x, y])
              = Inr (replicate (packet_len lead + 4) YMODEM_OK @ [YMODEM_TX_PENDING], s2,
                     FileCallback YMODEM_FILE_CB_END None 0 # ymodem_WriteSerial s2) \<and>
            reply s2 = [ACK] \<and> nextStatus s2 = YMODEM_COMPLETE))"
proof (intro conjI impI)
  assume "ymodem_wf s \<and> nextStatus s = YMODEM_OK \<and> startOfPacket s \<noteq> 0"
  then show "\<exists>s1. ymodem_ReceiveByte cb s EOT = Inr (YMODEM_TX_PENDING, s1, ymodem_WriteSerial s1) \<and>
            eotReceived s1 = 1 \<and> reply s1 = [ACK, CRC16] \<and>
            ymodem_wf s1 \<and> nextStatus s1 = YMODEM_OK \<and> startOfPacket s1 \<noteq> 0 \<and>
            packetBytes s1 = packetBytes s"
    by (simp add: ReceiveByte_EOT ymodem_wf_def reply_simps)
next
  assume a: "ymodem_wf s \<and> nextStatus s = YMODEM_OK \<and> startOfPacket s \<noteq> 0 \<and> packetBytes s = 0 \<and>
    eotReceived s = 1 \<and> (lead = SOH \<or> lead = STX) \<and> length payload = packet_len lead \<and>
    seq = cmpl XOR 0xFF"
  then have rb: "receive_bytes cb s (lead # seq # cmpl # payload @ [x, y]) =
     bind_fault
       (respond y (ymodem_ProcessPacket cb (packet_state s lead (seq # cmpl # payload @ [x, y]))))
       (\<lambda>(g, s', tr). Inr (replicate (packet_len lead + 4) YMODEM_OK @ [g], s', tr))"
    by (intro receive_bytes_framed) (simp_all add: ymodem_wf_def)
  show "\<exists>s2. receive_bytes cb s (lead # seq # cmpl # payload @ [x, y])
              = Inr (replicate (packet_len lead + 4) YMODEM_OK @ [YMODEM_TX_PENDING], s2,
                     FileCallback YMODEM_FILE_CB_END None 0 # ymodem_WriteSerial s2) \<and>
            reply s2 = [ACK] \<and> nextStatus s2 = YMODEM_COMPLETE"
    unfolding rb using a
    by (simp add: ProcessPacket_eot respond_Inr packet_done_def ymodem_wf_def reply_simps)
qed

theorem end_of_transmission_then_closing_packet_witness:
  "\<exists>s1 s2. ymodem_ReceiveByte accept_all (ymodem_Init session0 1) EOT
              = Inr (YMODEM_TX_PENDING, s1, ymodem_WriteSerial s1) \<and>
      eotReceived s1 = 1 \<and> reply s1 = [ACK, CRC16] \<and>
      receive_bytes accept_all s1 (SOH # 0 # 0xFF # replicate 128 0 @ [0, 0])
        = Inr (replicate (packet_len SOH + 4) YMODEM_OK @ [YMODEM_TX_PENDING], s2,
               FileCallback YMODEM_FILE_CB_END None 0 # ymodem_WriteSerial s2) \<and>
      reply s2 = [ACK] \<and> nextStatus s2 = YMODEM_COMPLETE"
proof -
  have w: "ymodem_wf (ymodem_Init session0 1)" by (simp add: ymodem_wf_def)
  obtain s1 where s1: "ymodem_ReceiveByte accept_all (ymodem_Init session0 1) EOT
              = Inr (YMODEM_TX_PENDING, s1, ymodem_WriteSerial s1)"
      "eotReceived s1 = 1" "reply s1 = [ACK, CRC16]" "ymodem_wf s1" "nextStatus s1 = YMODEM_OK"
      "startOfPacket s1 \<noteq> 0" "packetBytes s1 = 0"
    using end_of_transmission_then_closing_packet [where s = "ymodem_Init session0 1" and cb = accept_all] w
    by auto
  obtain s2 where "receive_bytes accept_all s1 (SOH # 0 # 0xFF # replicate 128 0 @ [0, 0])
        = Inr (replicate (packet_len SOH + 4) YMODEM_OK @ [YMODEM_TX_PENDING], s2,
               FileCallback YMODEM_FILE_CB_END None 0 # ymodem_WriteSerial s2)"
      "reply s2 = [ACK]" "nextStatus s2 = YMODEM_COMPLETE"
    using end_of_transmission_then_closing_packet [where s = s1 and lead = SOH
        and payload = "replicate 128 0" and seq = 0 and cmpl = "0xFF" and cb = accept_all
        and x = 0 and y = 0] s1
    by (auto simp: packet_len_def)
  with s1 show ?thesis by blast
qed

text \<open>
  C7. A first packet (expected sequence 0, sequence byte 0, valid complement and CRC) whose
  first payload byte is zero aborts the session: the reply is two cancel bytes, the status
  becomes aborted, and the only effect is the serial write, so the name callback is not
  called.
\<close>

theorem empty_first_packet_aborts:
  assumes "ymodem_wf s" "nextStatus s = YMODEM_OK" "startOfPacket s \<noteq> 0" "packetBytes s = 0"
    and "eotReceived s \<noteq> 1" "packetsReceived s = 0"
    and "lead = SOH \<or> lead = STX" "length payload = packet_len lead" "payload ! 0 = 0"
    and "hi = ucast (drop_bit 8 (crc16 payload))" "lo = ucast (crc16 payload)"
  shows "\<exists>s'. receive_bytes cb s (lead # 0 # 0xFF # payload @ [hi, lo])
            = Inr (replicate (packet_len lead + 4) YMODEM_OK @ [YMODEM_TX_PENDING], s',
                   ymodem_WriteSerial s') \<and>
          (\<forall>d l. FileCallback YMODEM_FILE_CB_NAME d l \<notin> set (ymodem_WriteSerial s')) \<and>
          reply s' = [CA, CA] \<and> nextStatus s' = YMODEM_ABORTED"
proof -
  let ?ps = "packet_state s lead (0 # 0xFF # payload @ [hi, lo])"
  have l: "length (packetData s) = 1029" using assms(1) by (simp add: ymodem_wf_def)
  have "0 < packet_len lead" by (simp add: packet_len_def)
  then have "packetData ?ps ! 3 = 0"
    unfolding packet_state_data [OF l assms(8)] nth_skip3 [of _ _ _ _ 0, simplified]
    using assms(8,9) by (simp add: nth_append)
  then have pf: "ymodem_ProcessFirstPacket cb ?ps = Inr (YM_ABORT, ?ps, [])"
    by (simp add: ymodem_ProcessFirstPacket_def)
  have "(0 :: byte) = 0xFF XOR 0xFF" by simp
  note rb = receive_bytes_valid [OF assms(1-5,7,8) this, of cb hi lo]
  show ?thesis
    unfolding rb using assms(1,6,10,11) pf
    by (simp add: respond_Inr packet_done_def ymodem_Abort_eq ymodem_wf_def reply_simps
        ymodem_WriteSerial_def)
qed

theorem empty_first_packet_aborts_witness:
  "\<exists>s'. receive_bytes accept_all (ymodem_Init session0 1)
              (SOH # 0 # 0xFF # replicate 128 0 @ [0, 0])
            = Inr (replicate (packet_len SOH + 4) YMODEM_OK @ [YMODEM_TX_PENDING], s',
                   ymodem_WriteSerial s') \<and>
          (\<forall>d l. FileCallback YMODEM_FILE_CB_NAME d l \<notin> set (ymodem_WriteSerial s')) \<and>
          reply s' = [CA, CA] \<and> nextStatus s' = YMODEM_ABORTED"
proof -
  have a: "SOH = SOH \<or> SOH = STX" "length (replicate 128 (0 :: byte)) = packet_len SOH"
    "replicate 128 (0 :: byte) ! 0 = 0"
    by (simp_all add: packet_len_def)
  show ?thesis
    by (rule empty_first_packet_aborts [OF session0_fresh a crc_zero_trailer])
qed

text \<open>
  C4, as amended. While no end-of-transmission byte is pending, an assembled, framing-valid
  packet whose sequence byte differs from the expected one, or whose trailer is not the CRC
  of its payload, is answered with the single byte \<open>NAK\<close>; the status stays nominal, the
  packet counter and the end-of-transmission flag are unchanged, and the session is back in
  the awaiting-header state. Any packet of the same size sent next is then processed exactly as
  it would have been from the session before the rejected packet: same returned statuses,
  same effects, same final session. Hence the counter advances only for a packet that passed
  both the sequence and the checksum check.
\<close>

theorem rejected_packet_is_retried:
  assumes "ymodem_wf s" "nextStatus s = YMODEM_OK" "startOfPacket s \<noteq> 0" "packetBytes s = 0"
    and "eotReceived s \<noteq> 1"
    and "lead = SOH \<or> lead = STX" "length payload = packet_len lead" "seq = cmpl XOR 0xFF"
    and "seq \<noteq> ucast (packetsReceived s)
         \<or> \<not> (hi = ucast (drop_bit 8 (crc16 payload)) \<and> lo = ucast (crc16 payload))"
    and "length retry = packet_len lead + 4"
  shows "\<exists>s'. receive_bytes cb s (lead # seq # cmpl # payload @ [hi, lo])
            = Inr (replicate (packet_len lead + 4) YMODEM_OK @ [YMODEM_TX_PENDING], s',
                   ymodem_WriteSerial s') \<and>
          reply s' = [NAK] \<and> nextStatus s' = YMODEM_OK \<and>
          packetsReceived s' = packetsReceived s \<and> eotReceived s' = eotReceived s \<and>
          ymodem_wf s' \<and> startOfPacket s' \<noteq> 0 \<and> packetBytes s' = 0 \<and>
          receive_bytes cb s' (lead # retry) = receive_bytes cb s (lead # retry)"
proof -
  let ?body = "seq # cmpl # payload @ [hi, lo]"
  have l: "length (packetData s) = 1029" "length (payloadTx s) = 5"
    using assms(1) by (simp_all add: ymodem_wf_def)
  have lb: "length ?body = packet_len lead + 4" using assms(7) by simp
  have rb: "receive_bytes cb s (lead # ?body)
      = Inr (replicate (packet_len lead + 4) YMODEM_OK @ [YMODEM_TX_PENDING],
             nak_state s lead ?body, ymodem_WriteSerial (nak_state s lead ?body))"
    unfolding receive_bytes_valid [OF assms(1-8)] using assms(9)
    by (auto simp: respond_Inr nak_state_def packet_done_def)
  have "receive_bytes cb (nak_state s lead ?body) (lead # retry) = receive_bytes cb s (lead # retry)"
    using l(1) assms(2,3,4,6) lb assms(10) by (rule receive_bytes_after_nak)
  then show ?thesis
    unfolding rb using assms(1,2,7) l packet_len_le [of lead]
    by (simp add: nak_state_def packet_done_def ymodem_wf_def reply_simps del: receive_bytes.simps)
qed

theorem rejected_packet_is_retried_witness:
  "\<exists>s'. receive_bytes accept_all (ymodem_Init session0 1)
             (SOH # 1 # 0xFE # replicate 128 0 @ [0, 0])
            = Inr (replicate (packet_len SOH + 4) YMODEM_OK @ [YMODEM_TX_PENDING], s',
                   ymodem_WriteSerial s') \<and>
          reply s' = [NAK] \<and> nextStatus s' = YMODEM_OK \<and>
          packetsReceived s' = packetsReceived (ymodem_Init session0 1) \<and>
          eotReceived s' = eotReceived (ymodem_Init session0 1) \<and>
          ymodem_wf s' \<and> startOfPacket s' \<noteq> 0 \<and> packetBytes s' = 0 \<and>
          receive_bytes accept_all s' (SOH # 0 # 0xFF # replicate 128 0 @ [0, 0])
            = receive_bytes accept_all (ymodem_Init session0 1)
                (SOH # 0 # 0xFF # replicate 128 0 @ [0, 0])"
proof -
  have a: "SOH = SOH \<or> SOH = STX" "length (replicate 128 (0 :: byte)) = packet_len SOH"
    "(1 :: byte) = 0xFE XOR 0xFF"
    "(1 :: byte) \<noteq> ucast (packetsReceived (ymodem_Init session0 1))
         \<or> \<not> ((0 :: byte) = ucast (drop_bit 8 (crc16 (replicate 128 0)))
              \<and> (0 :: byte) = ucast (crc16 (replicate 128 0)))"
    "length (0 # 0xFF # replicate 128 (0 :: byte) @ [0, 0]) = packet_len SOH + 4"
    by (simp_all add: packet_len_def)
  show ?thesis
    by (rule rejected_packet_is_retried [OF session0_fresh(1-5) a])
qed

text \<open>
  C4 as stated fails once an end-of-transmission byte has been seen: the next assembled packet
  is taken as the closing packet without any check, so a packet whose sequence byte (5) differs
  from the expected one (0) is answered with \<open>ACK\<close>, not \<open>NAK\<close>, and the sticky status
  complete is set.
\<close>

theorem closing_packet_with_wrong_sequence_counterexample:
  "final_reply (receive_bytes accept_all (ymodem_Init session0 1)
      (EOT # SOH # 5 # 0xFA # replicate 128 0 @ [0, 0])) = Some [ACK] \<and>
   final_status (receive_bytes accept_all (ymodem_Init session0 1)
      (EOT # SOH # 5 # 0xFA # replicate 128 0 @ [0, 0])) = Some YMODEM_COMPLETE \<and>
   (5 :: byte) \<noteq> ucast (packetsReceived (ymodem_Init session0 1))"
proof -
  let ?s1 = "session0\<lparr>startOfPacket := 1, serialWriteFxn := 1, initialized := YM_INSTANCE_INIT_MASK,
            eotReceived := 1, prevC := EOT,
            payloadTx := (replicate 5 0)[0 := ACK, 1 := CRC16], payloadLen := 2\<rparr>"
  have e: "ymodem_ReceiveByte accept_all (ymodem_Init session0 1) EOT
      = Inr (YMODEM_TX_PENDING, ?s1, ymodem_WriteSerial ?s1)"
    by (simp add: ReceiveByte_EOT)
  have c: "receive_bytes accept_all ?s1 (SOH # 5 # 0xFA # replicate 128 0 @ [0, 0])
       = Inr (replicate (packet_len SOH + 4) YMODEM_OK @ [YMODEM_TX_PENDING],
              (packet_done (packet_state ?s1 SOH (5 # 0xFA # replicate 128 0 @ [0, 0])) 0)
                \<lparr>payloadTx := (payloadTx ?s1)[0 := ACK], payloadLen := 1,
                  nextStatus := YMODEM_COMPLETE\<rparr>,
              FileCallback YMODEM_FILE_CB_END None 0 #
              ymodem_WriteSerial
                ((packet_done (packet_state ?s1 SOH (5 # 0xFA # replicate 128 0 @ [0, 0])) 0)
                   \<lparr>payloadTx := (payloadTx ?s1)[0 := ACK], payloadLen := 1,
                     nextStatus := YMODEM_COMPLETE\<rparr>))"
    by (rule closing_packet) (simp_all add: ymodem_wf_def packet_len_def)
  have "receive_bytes accept_all (ymodem_Init session0 1)
      (EOT # SOH # 5 # 0xFA # replicate 128 0 @ [0, 0])
     = Inr (YMODEM_TX_PENDING # replicate (packet_len SOH + 4) YMODEM_OK @ [YMODEM_TX_PENDING],
              (packet_done (packet_state ?s1 SOH (5 # 0xFA # replicate 128 0 @ [0, 0])) 0)
                \<lparr>payloadTx := (payloadTx ?s1)[0 := ACK], payloadLen := 1,
                  nextStatus := YMODEM_COMPLETE\<rparr>,
              ymodem_WriteSerial ?s1 @ FileCallback YMODEM_FILE_CB_END None 0 #
              ymodem_WriteSerial
                ((packet_done (packet_state ?s1 SOH (5 # 0xFA # replicate 128 0 @ [0, 0])) 0)
                   \<lparr>payloadTx := (payloadTx ?s1)[0 := ACK], payloadLen := 1,
                     nextStatus := YMODEM_COMPLETE\<rparr>))"
    unfolding receive_bytes.simps(2) [of _ _ EOT] e bind_fault_simps prod.case c ..
  then show ?thesis
    by (simp add: final_reply_def final_status_def reply_simps)
qed

text \<open>
  C1, as amended. \<open>ymodem_Init\<close> on a session not yet initialised and \<open>ymodem_Reset\<close> both
  give a fresh session. From a fresh session, a well-formed packet number 0 (valid leading
  byte, sequence byte 0, complement 0xFF, valid CRC) whose payload is a non-empty file name of
  at most 255 bytes, a NUL, at most 10 decimal digits and a space, and whose name the sink
  accepts, calls the name callback with the NUL-terminated file name and the parsed decimal
  size (as a 32-bit value), advances the expected sequence to 1, and leaves exactly \<open>ACK\<close>,
  \<open>CRC16\<close> as the reply. For every later well-formed data packet that the sink accepts (any
  session awaiting a header with nominal status, a non-zero packet counter, and no
  end-of-transmission byte pending), the data callback receives the packet's payload (the
  buffer starts with it and the length is 128 or 1024), the counter increments by one, and the
  reply is exactly the single byte \<open>ACK\<close>. The last condition is needed: with
  \<open>eotReceived = 1\<close> the same packet is taken as the closing packet, the end callback is
  called instead of the data callback, the counter stays and the status becomes
  \<open>YMODEM_COMPLETE\<close> (lemma \<open>closing_packet\<close>).
\<close>

theorem well_formed_packets_are_acknowledged:
  "(ymodem_wf raw \<and> initialized raw \<noteq> YM_INSTANCE_INIT_MASK \<longrightarrow>
      fresh_session (ymodem_Init raw f)) \<and>
   (ymodem_wf raw \<longrightarrow> (\<exists>s. ymodem_Reset raw = Inr (YMODEM_OK, s) \<and> fresh_session s)) \<and>
   (fresh_session s \<and> (lead = SOH \<or> lead = STX) \<and> length payload = packet_len lead \<and>
    payload = name @ 0 # sz @ 0x20 # rest \<and>
    name \<noteq> [] \<and> 0 \<notin> set name \<and> length name < YM_FILE_NAME_LENGTH \<and>
    list_all ISVALIDDEC sz \<and> length sz \<le> 10 \<and>
    hi = ucast (drop_bit 8 (crc16 payload)) \<and> lo = ucast (crc16 payload) \<and>
    cb YMODEM_FILE_CB_NAME (Some (name_field s name)) (of_nat (dec_value sz)) = YMODEM_OK \<longrightarrow>
      (\<exists>s'. receive_bytes cb s (lead # 0 # 0xFF # payload @ [hi, lo])
              = Inr (replicate (packet_len lead + 4) YMODEM_OK @ [YMODEM_TX_PENDING], s',
                     FileCallback YMODEM_FILE_CB_NAME (Some (name_field s name))
                       (of_nat (dec_value sz)) # ymodem_WriteSerial s') \<and>
            takeWhile (\<lambda>c. c \<noteq> 0) (name_field s name) = name \<and>
            name_field s name ! length name = 0 \<and>
            packetsReceived s' = 1 \<and> reply s' = [ACK, CRC16] \<and>
            nextStatus s' = YMODEM_OK)) \<and>
   (ymodem_wf t \<and> nextStatus t = YMODEM_OK \<and> startOfPacket t \<noteq> 0 \<and> packetBytes t = 0 \<and>
    eotReceived t \<noteq> 1 \<and> packetsReceived t \<noteq> 0 \<and>
    (lead' = SOH \<or> lead' = STX) \<and> length data = packet_len lead' \<and>
    seq = ucast (packetsReceived t) \<and> seq = cmpl XOR 0xFF \<and>
    hi' = ucast (drop_bit 8 (crc16 data)) \<and> lo' = ucast (crc16 data) \<and>
    cb YMODEM_FILE_CB_DATA
       (Some (data @ hi' # lo' # drop (packet_len lead' + YM_PACKET_OVERHEAD) (packetData t)))
       (if lead' = SOH then 128 else 1024) = YMODEM_OK \<longrightarrow>
      (\<exists>t' buf len. receive_bytes cb t (lead' # seq # cmpl # data @ [hi', lo'])
              = Inr (replicate (packet_len lead' + 4) YMODEM_OK @ [YMODEM_TX_PENDING], t',
                     FileCallback YMODEM_FILE_CB_DATA (Some buf) len # ymodem_WriteSerial t') \<and>
            unat len = packet_len lead' \<and> take (unat len) buf = data \<and>
            packetsReceived t' = packetsReceived t + 1 \<and> reply t' = [ACK] \<and>
            nextStatus t' = YMODEM_OK))"
proof (intro conjI impI)
  assume "ymodem_wf raw \<and> initialized raw \<noteq> YM_INSTANCE_INIT_MASK"
  then show "fresh_session (ymodem_Init raw f)" by (simp add: Init_fresh)
next
  assume "ymodem_wf raw"
  then show "\<exists>s. ymodem_Reset raw = Inr (YMODEM_OK, s) \<and> fresh_session s" by (rule Reset_fresh)
next
  assume a: "fresh_session s \<and> (lead = SOH \<or> lead = STX) \<and> length payload = packet_len lead \<and>
    payload = name @ 0 # sz @ 0x20 # rest \<and>
    name \<noteq> [] \<and> 0 \<notin> set name \<and> length name < 256 \<and>
    list_all ISVALIDDEC sz \<and> length sz \<le> 10 \<and>
    hi = ucast (drop_bit 8 (crc16 payload)) \<and> lo = ucast (crc16 payload) \<and>
    cb YMODEM_FILE_CB_NAME (Some (name_field s name)) (of_nat (dec_value sz)) = YMODEM_OK"
  then have "\<exists>s'. receive_bytes cb s (lead # 0 # 0xFF # payload @ [hi, lo])
          = Inr (replicate (packet_len lead + 4) YMODEM_OK @ [YMODEM_TX_PENDING], s',
                 FileCallback YMODEM_FILE_CB_NAME (Some (name_field s name))
                   (of_nat (dec_value sz)) # ymodem_WriteSerial s') \<and>
        packetsReceived s' =
          (if cb YMODEM_FILE_CB_NAME (Some (name_field s name)) (of_nat (dec_value sz)) = YMODEM_OK
           then 1 else 0) \<and>
        reply s' =
          (if cb YMODEM_FILE_CB_NAME (Some (name_field s name)) (of_nat (dec_value sz)) = YMODEM_OK
           then [ACK, CRC16] else [CA, CA]) \<and>
        nextStatus s' =
          (if cb YMODEM_FILE_CB_NAME (Some (name_field s name)) (of_nat (dec_value sz)) = YMODEM_OK
           then YMODEM_OK else YMODEM_SIZE_ERR)"
    by (elim conjE) (rule first_packet_accepted, assumption+)
  moreover have "takeWhile (\<lambda>c. c \<noteq> 0) (name_field s name) = name"
    using a by (simp add: takeWhile_name_field)
  moreover have "name_field s name ! length name = 0"
    by (simp add: name_field_def)
  ultimately show "\<exists>s'. receive_bytes cb s (lead # 0 # 0xFF # payload @ [hi, lo])
              = Inr (replicate (packet_len lead + 4) YMODEM_OK @ [YMODEM_TX_PENDING], s',
                     FileCallback YMODEM_FILE_CB_NAME (Some (name_field s name))
                       (of_nat (dec_value sz)) # ymodem_WriteSerial s') \<and>
            takeWhile (\<lambda>c. c \<noteq> 0) (name_field s name) = name \<and>
            name_field s name ! length name = 0 \<and>
            packetsReceived s' = 1 \<and> reply s' = [ACK, CRC16] \<and>
            nextStatus s' = YMODEM_OK"
    using a by auto
next
  let ?buf = "data @ hi' # lo' # drop (packet_len lead' + 5) (packetData t)"
  let ?len = "(if lead' = SOH then 128 else 1024) :: 32 word"
  assume a: "ymodem_wf t \<and> nextStatus t = YMODEM_OK \<and> startOfPacket t \<noteq> 0 \<and> packetBytes t = 0 \<and>
    eotReceived t \<noteq> 1 \<and> packetsReceived t \<noteq> 0 \<and>
    (lead' = SOH \<or> lead' = STX) \<and> length data = packet_len lead' \<and>
    seq = ucast (packetsReceived t) \<and> seq = cmpl XOR 0xFF \<and>
    hi' = ucast (drop_bit 8 (crc16 data)) \<and> lo' = ucast (crc16 data) \<and>
    cb YMODEM_FILE_CB_DATA (Some ?buf) ?len = YMODEM_OK"
  then have "\<exists>s'. receive_bytes cb t (lead' # seq # cmpl # data @ [hi', lo'])
          = Inr (replicate (packet_len lead' + 4) YMODEM_OK @ [YMODEM_TX_PENDING], s',
                 FileCallback YMODEM_FILE_CB_DATA (Some ?buf) ?len # ymodem_WriteSerial s') \<and>
        packetsReceived s' =
          (if cb YMODEM_FILE_CB_DATA (Some ?buf) ?len = YMODEM_OK
           then packetsReceived t + 1 else 0) \<and>
        reply s' =
          (if cb YMODEM_FILE_CB_DATA (Some ?buf) ?len = YMODEM_OK then [ACK] else [CA, CA]) \<and>
        nextStatus s' =
          (if cb YMODEM_FILE_CB_DATA (Some ?buf) ?len = YMODEM_OK
           then YMODEM_OK else YMODEM_WRITE_ERR)"
    by (elim conjE) (rule data_packet, assumption+)
  moreover have "unat ?len = packet_len lead'" by (simp add: packet_len_def)
  moreover have "take (unat ?len) ?buf = data"
    using a by (simp add: packet_len_def)
  ultimately show "\<exists>t' buf len. receive_bytes cb t (lead' # seq # cmpl # data @ [hi', lo'])
              = Inr (replicate (packet_len lead' + 4) YMODEM_OK @ [YMODEM_TX_PENDING], t',
                     FileCallback YMODEM_FILE_CB_DATA (Some buf) len # ymodem_WriteSerial t') \<and>
            unat len = packet_len lead' \<and> take (unat len) buf = data \<and>
            packetsReceived t' = packetsReceived t + 1 \<and> reply t' = [ACK] \<and>
            nextStatus t' = YMODEM_OK"
    using a by (metis (no_types, lifting))
qed

theorem well_formed_packets_are_acknowledged_witness:
  "fresh_session (ymodem_Init session0 1) \<and>
   (\<exists>s'. receive_bytes accept_all (ymodem_Init session0 1)
            (SOH # 0 # 0xFF # example_payload @ [0x7E, 0x25])
          = Inr (replicate (packet_len SOH + 4) YMODEM_OK @ [YMODEM_TX_PENDING], s',
                 FileCallback YMODEM_FILE_CB_NAME
                   (Some (name_field (ymodem_Init session0 1) [0x61])) 1
                 # ymodem_WriteSerial s') \<and>
         packetsReceived s' = 1 \<and> reply s' = [ACK, CRC16] \<and> nextStatus s' = YMODEM_OK) \<and>
   (\<exists>t' buf len. receive_bytes accept_all ((ymodem_Init session0 1)\<lparr>packetsReceived := 1\<rparr>)
            (SOH # 1 # 0xFE # replicate 128 0 @ [0, 0])
          = Inr (replicate (packet_len SOH + 4) YMODEM_OK @ [YMODEM_TX_PENDING], t',
                 FileCallback YMODEM_FILE_CB_DATA (Some buf) len # ymodem_WriteSerial t') \<and>
         unat len = packet_len SOH \<and> take (unat len) buf = replicate 128 0 \<and>
         packetsReceived t' = 2 \<and> reply t' = [ACK] \<and> nextStatus t' = YMODEM_OK)"
proof -
  let ?s = "ymodem_Init session0 1"
  let ?t = "(ymodem_Init session0 1)\<lparr>packetsReceived := 1\<rparr>"
  have dv: "dec_value [0x31] = 1" by (simp add: dec_value_def)
  have h1: "ymodem_wf session0 \<and> initialized session0 \<noteq> YM_INSTANCE_INIT_MASK"
    by (simp add: ymodem_wf_def)
  have h3: "fresh_session ?s \<and> (SOH = SOH \<or> SOH = STX) \<and>
    length example_payload = packet_len SOH \<and>
    example_payload = [0x61] @ 0 # [0x31] @ 0x20 # replicate 124 0 \<and>
    [0x61 :: byte] \<noteq> [] \<and> 0 \<notin> set [0x61 :: byte] \<and> length [0x61 :: byte] < 256 \<and>
    list_all ISVALIDDEC [0x31 :: byte] \<and> length [0x31 :: byte] \<le> 10 \<and>
    (0x7E :: byte) = ucast (drop_bit 8 (crc16 example_payload)) \<and>
    (0x25 :: byte) = ucast (crc16 example_payload) \<and>
    accept_all YMODEM_FILE_CB_NAME (Some (name_field ?s [0x61])) (of_nat (dec_value [0x31]))
      = YMODEM_OK"
    using example_payload_layout session0_fresh_session [of 1]
    by (simp add: ISVALIDDEC_1 accept_all_def)
  have h4: "ymodem_wf ?t \<and> nextStatus ?t = YMODEM_OK \<and> startOfPacket ?t \<noteq> 0 \<and>
    packetBytes ?t = 0 \<and> eotReceived ?t \<noteq> 1 \<and> packetsReceived ?t \<noteq> 0 \<and>
    (SOH = SOH \<or> SOH = STX) \<and> length (replicate 128 (0 :: byte)) = packet_len SOH \<and>
    (1 :: byte) = ucast (packetsReceived ?t) \<and> (1 :: byte) = 0xFE XOR 0xFF \<and>
    (0 :: byte) = ucast (drop_bit 8 (crc16 (replicate 128 0))) \<and>
    (0 :: byte) = ucast (crc16 (replicate 128 0)) \<and>
    accept_all YMODEM_FILE_CB_DATA
       (Some (replicate 128 0 @ 0 # 0 # drop (packet_len SOH + 5) (packetData ?t)))
       (if SOH = SOH then 128 else 1024) = YMODEM_OK"
    by (simp add: ymodem_wf_def packet_len_def crc16_zeros accept_all_def)
  note T = well_formed_packets_are_acknowledged [where raw = session0 and f = 1 and s = ?s
      and lead = SOH and payload = example_payload and name = "[0x61]" and sz = "[0x31]"
      and rest = "replicate 124 0" and hi = "0x7E" and lo = "0x25" and cb = accept_all
      and t = ?t and lead' = SOH and data = "replicate 128 0" and seq = 1 and cmpl = "0xFE"
      and hi' = 0 and lo' = 0]
  from T h1 have c1: "fresh_session ?s" by blast
  from T h3 have c3: "\<exists>s'. receive_bytes accept_all ?s (SOH # 0 # 0xFF # example_payload @ [0x7E, 0x25])
              = Inr (replicate (packet_len SOH + 4) YMODEM_OK @ [YMODEM_TX_PENDING], s',
                     FileCallback YMODEM_FILE_CB_NAME (Some (name_field ?s [0x61]))
                       (of_nat (dec_value [0x31])) # ymodem_WriteSerial s') \<and>
            takeWhile (\<lambda>c. c \<noteq> 0) (name_field ?s [0x61]) = [0x61] \<and>
            name_field ?s [0x61] ! length [0x61 :: byte] = 0 \<and>
            packetsReceived s' = 1 \<and> reply s' = [ACK, CRC16] \<and>
            nextStatus s' = YMODEM_OK"
    by blast
  from T h4 have c4: "\<exists>t' buf len. receive_bytes accept_all ?t (SOH # 1 # 0xFE # replicate 128 0 @ [0, 0])
              = Inr (replicate (packet_len SOH + 4) YMODEM_OK @ [YMODEM_TX_PENDING], t',
                     FileCallback YMODEM_FILE_CB_DATA (Some buf) len # ymodem_WriteSerial t') \<and>
            unat len = packet_len SOH \<and> take (unat len) buf = replicate 128 0 \<and>
            packetsReceived t' = packetsReceived ?t + 1 \<and> reply t' = [ACK] \<and>
            nextStatus t' = YMODEM_OK"
    by blast
  have two: "packetsReceived ?t + 1 = 2" by simp
  from c1 c3 c4 show ?thesis unfolding dv two by (simp del: receive_bytes.simps) blast
qed

text \<open>
  C1 as stated fails when the sink rejects the name: on a fresh session the well-formed first
  packet for file "a" of size 1 is answered with two cancel bytes, the counter is back at 0
  and the status is the size error.
\<close>

theorem rejected_name_counterexample:
  "final_reply (receive_bytes reject_all (ymodem_Init session0 1)
      (SOH # 0 # 0xFF # example_payload @ [0x7E, 0x25])) = Some [CA, CA] \<and>
   final_sequence (receive_bytes reject_all (ymodem_Init session0 1)
      (SOH # 0 # 0xFF # example_payload @ [0x7E, 0x25])) = Some 0 \<and>
   final_status (receive_bytes reject_all (ymodem_Init session0 1)
      (SOH # 0 # 0xFF # example_payload @ [0x7E, 0x25])) = Some YMODEM_SIZE_ERR"
proof -
  have "\<exists>s'. receive_bytes reject_all (ymodem_Init session0 1)
            (SOH # 0 # 0xFF # example_payload @ [0x7E, 0x25])
          = Inr (replicate (packet_len SOH + 4) YMODEM_OK @ [YMODEM_TX_PENDING], s',
                 FileCallback YMODEM_FILE_CB_NAME (Some (name_field (ymodem_Init session0 1) [0x61]))
                   (of_nat (dec_value [0x31])) # ymodem_WriteSerial s') \<and>
        packetsReceived s' =
          (if reject_all YMODEM_FILE_CB_NAME (Some (name_field (ymodem_Init session0 1) [0x61]))
                (of_nat (dec_value [0x31])) = YMODEM_OK
           then 1 else 0) \<and>
        reply s' =
          (if reject_all YMODEM_FILE_CB_NAME (Some (name_field (ymodem_Init session0 1) [0x61]))
                (of_nat (dec_value [0x31])) = YMODEM_OK
           then [ACK, CRC16] else [CA, CA]) \<and>
        nextStatus s' =
          (if reject_all YMODEM_FILE_CB_NAME (Some (name_field (ymodem_Init session0 1) [0x61]))
                (of_nat (dec_value [0x31])) = YMODEM_OK
           then YMODEM_OK else YMODEM_SIZE_ERR)"
    by (rule first_packet_accepted [OF session0_fresh_session _ example_payload_layout(2,1) _ _ _ _ _
          example_payload_layout(3,4)])
       (simp_all add: ISVALIDDEC_1)
  then obtain s' where "receive_bytes reject_all (ymodem_Init session0 1)
            (SOH # 0 # 0xFF # example_payload @ [0x7E, 0x25])
          = Inr (replicate (packet_len SOH + 4) YMODEM_OK @ [YMODEM_TX_PENDING], s',
                 FileCallback YMODEM_FILE_CB_NAME (Some (name_field (ymodem_Init session0 1) [0x61]))
                   (of_nat (dec_value [0x31])) # ymodem_WriteSerial s')"
    "packetsReceived s' = 0" "reply s' = [CA, CA]" "nextStatus s' = YMODEM_SIZE_ERR"
    by (auto simp: reject_all_def)
  then show ?thesis
    by (simp add: final_reply_def final_sequence_def final_status_def del: receive_bytes.simps)
qed

text \<open>
  C10. \<open>Str2Int\<close> returns 1 and stores the parsed value (modulo 2^32) exactly for a string of
  at most 10 decimal digits followed by NUL; it returns 0 and stores nothing when a character
  that is neither a digit nor NUL comes first, or when the first 11 characters are digits.
  \<open>ymodem_ProcessFirstPacket\<close> does not look at that result: when the parse fails,
  \<open>fileSize\<close> keeps its previous value, the name callback is still called with the file name
  and that value, and the packet is accepted with \<open>YM_START_RX\<close> if the callback accepts.
\<close>

theorem first_packet_ignores_Str2Int_result:
  "(list_all ISVALIDDEC ds \<and> length ds \<le> 10 \<longrightarrow>
      Str2Int (ds @ 0 # ra) n = (1, of_nat (dec_value ds))) \<and>
   (list_all ISVALIDDEC dsb \<and> length dsb \<le> 10 \<and> c \<noteq> 0 \<and> \<not> ISVALIDDEC c \<longrightarrow>
      Str2Int (dsb @ c # rb) n = (0, n)) \<and>
   (list_all ISVALIDDEC dsc \<and> length dsc = 11 \<longrightarrow> Str2Int (dsc @ rc) n = (0, n)) \<and>
   (length str = YM_FILE_SIZE_LENGTH \<longrightarrow>
      (fst (Str2Int str n) = 1 \<longleftrightarrow>
         (\<exists>ds rest. str = ds @ 0 # rest \<and> list_all ISVALIDDEC ds \<and> length ds \<le> 10)) \<and>
      (fst (Str2Int str n) \<noteq> 1 \<longrightarrow> Str2Int str n = (0, n))) \<and>
   (length (fileName s) = YM_FILE_NAME_LENGTH \<and> length (fileSizeStr s) = YM_FILE_SIZE_LENGTH \<and>
    drop YM_PACKET_HEADER (packetData s) = name @ 0 # sz @ 0x20 # rest \<and>
    name \<noteq> [] \<and> 0 \<notin> set name \<and> length name < YM_FILE_NAME_LENGTH \<and>
    0x20 \<notin> set sz \<and> length sz < YM_FILE_SIZE_LENGTH \<and>
    fst (Str2Int (size_field s sz) (fileSize s)) \<noteq> 1 \<longrightarrow>
      ymodem_ProcessFirstPacket cb s =
        Inr (if cb YMODEM_FILE_CB_NAME (Some (name_field s name)) (fileSize s) = YMODEM_OK
             then YM_START_RX else YM_SIZE_ERR,
             s\<lparr>fileName := name_field s name, fileSizeStr := size_field s sz,
               packetsReceived := packetsReceived s + 1\<rparr>,
             [FileCallback YMODEM_FILE_CB_NAME (Some (name_field s name)) (fileSize s)]) \<and>
      takeWhile (\<lambda>c. c \<noteq> 0) (name_field s name) = name)"
proof (intro conjI impI)
  assume "list_all ISVALIDDEC ds \<and> length ds \<le> 10"
  then show "Str2Int (ds @ 0 # ra) n = (1, of_nat (dec_value ds))"
    by (simp add: Str2Int_success)
next
  assume "list_all ISVALIDDEC dsb \<and> length dsb \<le> 10 \<and> c \<noteq> 0 \<and> \<not> ISVALIDDEC c"
  then show "Str2Int (dsb @ c # rb) n = (0, n)"
    by (simp add: Str2Int_nondigit)
next
  assume "list_all ISVALIDDEC dsc \<and> length dsc = 11"
  then show "Str2Int (dsc @ rc) n = (0, n)"
    by (simp add: Str2Int_overlong)
next
  assume "length str = 16"
  then have "11 \<le> length str" by simp
  then show "fst (Str2Int str n) = 1 \<longleftrightarrow>
         (\<exists>ds rest. str = ds @ 0 # rest \<and> list_all ISVALIDDEC ds \<and> length ds \<le> 10)"
    by (rule Str2Int_success_iff)
next
  assume "fst (Str2Int str n) \<noteq> 1"
  then show "Str2Int str n = (0, n)" by (rule Str2Int_failure)
next
  assume a: "length (fileName s) = 256 \<and> length (fileSizeStr s) = 16 \<and>
    drop 3 (packetData s) = name @ 0 # sz @ 0x20 # rest \<and>
    name \<noteq> [] \<and> 0 \<notin> set name \<and> length name < 256 \<and>
    0x20 \<notin> set sz \<and> length sz < 16 \<and>
    fst (Str2Int (size_field s sz) (fileSize s)) \<noteq> 1"
  then have stale: "snd (Str2Int (size_field s sz) (fileSize s)) = fileSize s"
    using Str2Int_failure [of "size_field s sz" "fileSize s"] by simp
  have "ymodem_ProcessFirstPacket cb s =
     Inr (if cb YMODEM_FILE_CB_NAME (Some (name_field s name))
               (snd (Str2Int (size_field s sz) (fileSize s))) = YMODEM_OK
          then YM_START_RX else YM_SIZE_ERR,
          s\<lparr>fileName := name_field s name, fileSizeStr := size_field s sz,
            fileSize := snd (Str2Int (size_field s sz) (fileSize s)),
            packetsReceived := packetsReceived s + 1\<rparr>,
          [FileCallback YMODEM_FILE_CB_NAME (Some (name_field s name))
             (snd (Str2Int (size_field s sz) (fileSize s)))])"
    using a by (elim conjE) (rule ProcessFirstPacket_layout, assumption+)
  then show "ymodem_ProcessFirstPacket cb s =
        Inr (if cb YMODEM_FILE_CB_NAME (Some (name_field s name)) (fileSize s) = YMODEM_OK
             then YM_START_RX else YM_SIZE_ERR,
             s\<lparr>fileName := name_field s name, fileSizeStr := size_field s sz,
               packetsReceived := packetsReceived s + 1\<rparr>,
             [FileCallback YMODEM_FILE_CB_NAME (Some (name_field s name)) (fileSize s)])"
    unfolding stale by simp
  show "takeWhile (\<lambda>c. c \<noteq> 0) (name_field s name) = name"
    using a by (simp add: takeWhile_name_field)
qed

theorem first_packet_ignores_Str2Int_result_witness:
  "Str2Int ([0x31, 0x32] @ 0 # []) 7 = (1, 12) \<and>
   Str2Int ([0x31] @ 0x78 # [0]) 7 = (0, 7) \<and>
   Str2Int (replicate 11 0x31 @ [0]) 7 = (0, 7) \<and>
   fileSize example_bad_size_session = 7 \<and>
   ymodem_ProcessFirstPacket accept_all example_bad_size_session =
     Inr (YM_START_RX,
          example_bad_size_session
            \<lparr>fileName := name_field example_bad_size_session [0x61],
              fileSizeStr := size_field example_bad_size_session [0x31, 0x78],
              packetsReceived := packetsReceived example_bad_size_session + 1\<rparr>,
          [FileCallback YMODEM_FILE_CB_NAME (Some (name_field example_bad_size_session [0x61])) 7])"
proof -
  let ?s = example_bad_size_session
  have sf: "size_field ?s [0x31, 0x78] = [0x31] @ 0x78 # 0 # drop 3 (replicate 16 0)"
    by (simp add: size_field_def example_bad_size_session_def)
  have "Str2Int ([0x31] @ 0x78 # 0 # drop 3 (replicate 16 0)) (fileSize ?s) = (0, fileSize ?s)"
    by (rule Str2Int_nondigit) (simp_all add: ISVALIDDEC_1)
  then have h5: "length (fileName ?s) = 256 \<and> length (fileSizeStr ?s) = 16 \<and>
    drop 3 (packetData ?s) = [0x61] @ 0 # [0x31, 0x78] @ 0x20 # replicate 1021 0 \<and>
    [0x61 :: byte] \<noteq> [] \<and> 0 \<notin> set [0x61 :: byte] \<and> length [0x61 :: byte] < 256 \<and>
    0x20 \<notin> set [0x31, 0x78 :: byte] \<and> length [0x31, 0x78 :: byte] < 16 \<and>
    fst (Str2Int (size_field ?s [0x31, 0x78]) (fileSize ?s)) \<noteq> 1"
    unfolding sf by (simp add: example_bad_size_session_def drop_skip3)
  have h: "list_all ISVALIDDEC [0x31, 0x32 :: byte] \<and> length [0x31, 0x32 :: byte] \<le> 10"
    "list_all ISVALIDDEC [0x31 :: byte] \<and> length [0x31 :: byte] \<le> 10 \<and> (0x78 :: byte) \<noteq> 0
       \<and> \<not> ISVALIDDEC 0x78"
    "list_all ISVALIDDEC (replicate 11 (0x31 :: byte)) \<and> length (replicate 11 (0x31 :: byte)) = 11"
    by (simp_all add: ISVALIDDEC_1 list_all_iff)
  have dv: "dec_value [0x31, 0x32] = 12" by (simp add: dec_value_def)
  have fs: "fileSize ?s = 7" by (simp add: example_bad_size_session_def)
  note T = first_packet_ignores_Str2Int_result [where ds = "[0x31, 0x32]" and ra = "[]" and n = 7
      and dsb = "[0x31]" and c = "0x78" and rb = "[0]" and dsc = "replicate 11 0x31" and rc = "[0]"
      and s = ?s and name = "[0x61]" and sz = "[0x31, 0x78]" and rest = "replicate 1021 0"
      and cb = accept_all and str = "replicate 16 0"]
  from T h h5 have
    "Str2Int ([0x31, 0x32] @ 0 # []) 7 = (1, of_nat (dec_value [0x31, 0x32]))"
    "Str2Int ([0x31] @ 0x78 # [0]) 7 = (0, 7)"
    "Str2Int (replicate 11 0x31 @ [0]) 7 = (0, 7)"
    "ymodem_ProcessFirstPacket accept_all ?s =
        Inr (if accept_all YMODEM_FILE_CB_NAME (Some (name_field ?s [0x61])) (fileSize ?s) = YMODEM_OK
             then YM_START_RX else YM_SIZE_ERR,
             ?s\<lparr>fileName := name_field ?s [0x61], fileSizeStr := size_field ?s [0x31, 0x78],
               packetsReceived := packetsReceived ?s + 1\<rparr>,
             [FileCallback YMODEM_FILE_CB_NAME (Some (name_field ?s [0x61])) (fileSize ?s)])"
    by blast+
  then show ?thesis
    unfolding dv fs by (simp add: accept_all_def)
qed

end
